theory Spec2Isabelle
  imports Main "HOL-Library.Word" "HOL-Library.Sublist"
begin

section \<open>Python values\<close>

text \<open>
  A Python \<open>str\<close> is a sequence of Unicode code points, a \<open>bytes\<close> object a sequence
  of bytes. Code points are natural numbers; bytes are HOL characters (8 bits each).
  \<open>ascii\<close> reads a literal: the \<open>str\<close> whose code points are the bytes of the literal.
\<close>

type_synonym pystr = "nat list"

type_synonym pybytes = "char list"

definition ascii :: "string \<Rightarrow> pystr" where
  "ascii s = map of_char s"

text \<open>The exceptions the modelled code can raise.\<close>

datatype py_error =
    IndexError
  | KeyError pystr
  | UnicodeDecodeError
  | AddressValueError
  | ValueError
  | NetmaskValueError
  | TypeError
  | csv_Error

section \<open>\<open>str.split()\<close>\<close>

text \<open>
  \<open>str.isspace\<close> for one code point: the code points CPython lists as whitespace
  (\<open>_PyUnicode_IsWhitespace\<close>).
\<close>

definition isspace :: "nat \<Rightarrow> bool" where
  "isspace c \<longleftrightarrow>
     (9 \<le> c \<and> c \<le> 13) \<or> (28 \<le> c \<and> c \<le> 32) \<or> c = 133 \<or> c = 160 \<or> c = 5760 \<or>
     (8192 \<le> c \<and> c \<le> 8202) \<or> c = 8232 \<or> c = 8233 \<or> c = 8239 \<or> c = 8287 \<or> c = 12288"

text \<open>
  \<open>text.split()\<close> with no separator: the maximal runs of non-whitespace code points, in
  order. \<open>cur\<close> is the run being read, newest code point first.
\<close>

fun split_from :: "pystr \<Rightarrow> pystr \<Rightarrow> pystr list" where
  "split_from cur [] = (if cur = [] then [] else [rev cur])"
| "split_from cur (c # cs) =
     (if isspace c then (if cur = [] then split_from [] cs else rev cur # split_from [] cs)
      else split_from (c # cur) cs)"

definition str_split :: "pystr \<Rightarrow> pystr list" where
  "str_split s = split_from [] s"

section \<open>\<open>csv.reader\<close>, excel dialect\<close>

text \<open>
  \<open>csv.reader(lines)\<close> with the default dialect: delimiter \<open>,\<close> (44), quotechar \<open>"\<close> (34),
  doublequote on, no escapechar, skipinitialspace off, not strict, QUOTE_MINIMAL. The
  reader is the state machine of CPython's \<open>_csv.c\<close> (as of 3.11, where a NUL character
  is a character like any other); the states that only an escapechar reaches are left
  out. A field may hold at most \<open>csv.field_size_limit()\<close> characters,
  131072 unless the program changes it (this one does not): adding a character to a field
  that is already that long raises \<open>csv.Error\<close>.
\<close>

datatype parser_state =
  START_RECORD | START_FIELD | IN_FIELD | IN_QUOTED_FIELD | QUOTE_IN_QUOTED_FIELD | EAT_CRNL

record reader =
  state :: parser_state
  fields' :: "pystr list"
  field :: pystr

definition field_limit :: nat where
  "field_limit = 131072"

definition parse_reset :: reader where
  "parse_reset = \<lparr>state = START_RECORD, fields' = [], field = []\<rparr>"

definition parse_save_field :: "reader \<Rightarrow> reader" where
  "parse_save_field r = r\<lparr>fields' := fields' r @ [field r], field := []\<rparr>"

definition parse_add_char :: "reader \<Rightarrow> nat \<Rightarrow> py_error + reader" where
  "parse_add_char r c =
     (if field_limit \<le> length (field r) then Inl csv_Error
      else Inr (r\<lparr>field := field r @ [c]\<rparr>))"

text \<open>
  One step of the machine. The character is \<open>Some c\<close>, or \<open>None\<close> for the end-of-line
  mark \<open>EOL\<close> that the reader feeds after the last character of every line.
  \<open>add_char_then r c s\<close> adds the character and, when that did not raise, moves to state
  \<open>s\<close>.
\<close>

definition is_crlf :: "nat option \<Rightarrow> bool" where
  "is_crlf c \<longleftrightarrow> c = Some 10 \<or> c = Some 13"

definition end_of_line :: "reader \<Rightarrow> nat option \<Rightarrow> reader" where
  "end_of_line r c =
     (parse_save_field r)\<lparr>state := (if c = None then START_RECORD else EAT_CRNL)\<rparr>"

definition add_char_then :: "reader \<Rightarrow> nat \<Rightarrow> parser_state \<Rightarrow> py_error + reader" where
  "add_char_then r c s =
     (case parse_add_char r c of
        Inl e \<Rightarrow> Inl e
      | Inr r' \<Rightarrow> Inr (r'\<lparr>state := s\<rparr>))"

definition start_field :: "reader \<Rightarrow> nat option \<Rightarrow> py_error + reader" where
  "start_field r c =
     (if is_crlf c \<or> c = None then Inr (end_of_line r c)
      else if c = Some 34 then Inr (r\<lparr>state := IN_QUOTED_FIELD\<rparr>)
      else if c = Some 44 then Inr ((parse_save_field r)\<lparr>state := START_FIELD\<rparr>)
      else add_char_then r (the c) IN_FIELD)"

definition parse_process_char :: "reader \<Rightarrow> nat option \<Rightarrow> py_error + reader" where
  "parse_process_char r c =
     (case state r of
        START_RECORD \<Rightarrow>
          (if c = None then Inr r
           else if is_crlf c then Inr (r\<lparr>state := EAT_CRNL\<rparr>)
           else start_field r c)
      | START_FIELD \<Rightarrow> start_field r c
      | IN_FIELD \<Rightarrow>
          (if is_crlf c \<or> c = None then Inr (end_of_line r c)
           else if c = Some 44 then Inr ((parse_save_field r)\<lparr>state := START_FIELD\<rparr>)
           else add_char_then r (the c) IN_FIELD)
      | IN_QUOTED_FIELD \<Rightarrow>
          (if c = None then Inr r
           else if c = Some 34 then Inr (r\<lparr>state := QUOTE_IN_QUOTED_FIELD\<rparr>)
           else add_char_then r (the c) IN_QUOTED_FIELD)
      | QUOTE_IN_QUOTED_FIELD \<Rightarrow>
          (if c = Some 34 then add_char_then r 34 IN_QUOTED_FIELD
           else if c = Some 44 then Inr ((parse_save_field r)\<lparr>state := START_FIELD\<rparr>)
           else if is_crlf c \<or> c = None then Inr (end_of_line r c)
           else add_char_then r (the c) IN_FIELD)
      | EAT_CRNL \<Rightarrow>
          (if is_crlf c then Inr r
           else if c = None then Inr (r\<lparr>state := START_RECORD\<rparr>)
           else Inl csv_Error))"

text \<open>One line: its characters, then \<open>EOL\<close>.\<close>

fun process_line :: "reader \<Rightarrow> pystr \<Rightarrow> py_error + reader" where
  "process_line r [] = parse_process_char r None"
| "process_line r (c # cs) =
     (case parse_process_char r (Some c) of
        Inl e \<Rightarrow> Inl e
      | Inr r' \<Rightarrow> process_line r' cs)"

text \<open>
  The reader is an iterator: each \<open>next\<close> resets the machine and feeds lines until the
  state is \<open>START_RECORD\<close> again, then yields the fields. When the lines run out inside a
  record (a quoted field left open), the pending field is saved and the record is yielded.
  \<open>reader_rows r lines\<close> is the whole iteration from a machine \<open>r\<close>: the rows yielded, in
  order, and the exception that ends the iteration, if one does.
\<close>

fun reader_rows :: "reader \<Rightarrow> pystr list \<Rightarrow> pystr list list \<times> py_error option" where
  "reader_rows r [] =
     (if field r = [] \<and> state r \<noteq> IN_QUOTED_FIELD then ([], None)
      else ([fields' (parse_save_field r)], None))"
| "reader_rows r (l # ls) =
     (case process_line r l of
        Inl e \<Rightarrow> ([], Some e)
      | Inr r' \<Rightarrow>
          (if state r' = START_RECORD
           then (case reader_rows parse_reset ls of (rows, e) \<Rightarrow> (fields' r' # rows, e))
           else reader_rows r' ls))"

definition csv_reader :: "pystr list \<Rightarrow> pystr list list \<times> py_error option" where
  "csv_reader lines = reader_rows parse_reset lines"

text \<open>
  A \<open>for\<close> loop over such an iterator: the body runs on each row and may raise; when the
  rows are exhausted the iterator's own exception, if any, is raised.
\<close>

fun for_rows :: "('s \<Rightarrow> 'a \<Rightarrow> py_error + 's) \<Rightarrow> 's \<Rightarrow> 'a list \<times> py_error option \<Rightarrow> py_error + 's" where
  "for_rows body s ([], None) = Inr s"
| "for_rows body s ([], Some e) = Inl e"
| "for_rows body s (x # xs, e) =
     (case body s x of
        Inl err \<Rightarrow> Inl err
      | Inr s' \<Rightarrow> for_rows body s' (xs, e))"

section \<open>\<open>parse_blag_contents\<close> (\<open>main.py\<close>)\<close>

text \<open>
  The first loop, \<open>blag_map[row[1]] = row[0]\<close>: either subscript raises \<open>IndexError\<close> on a
  row that is too short.
\<close>

definition map_row :: "(pystr \<rightharpoonup> pystr) \<Rightarrow> pystr list \<Rightarrow> py_error + (pystr \<rightharpoonup> pystr)" where
  "map_row blag_map row =
     (if length row < 2 then Inl IndexError
      else Inr (blag_map(row ! 1 \<mapsto> row ! 0)))"

definition parse_map_list :: "pystr \<Rightarrow> py_error + (pystr \<rightharpoonup> pystr)" where
  "parse_map_list map_list = for_rows map_row Map.empty (csv_reader (str_split map_list))"

text \<open>
  The second loop, \<open>ip = row.pop(0); ips[ip] = [blag_map[x] for x in row]\<close>: \<open>pop\<close> raises
  \<open>IndexError\<close> on an empty row, the comprehension raises \<open>KeyError\<close> at the first code
  that is not a key of \<open>blag_map\<close>.
\<close>

fun lookup_codes :: "(pystr \<rightharpoonup> pystr) \<Rightarrow> pystr list \<Rightarrow> py_error + pystr list" where
  "lookup_codes blag_map [] = Inr []"
| "lookup_codes blag_map (x # xs) =
     (case blag_map x of
        None \<Rightarrow> Inl (KeyError x)
      | Some d \<Rightarrow>
          (case lookup_codes blag_map xs of
             Inl e \<Rightarrow> Inl e
           | Inr ds \<Rightarrow> Inr (d # ds)))"

definition blag_row ::
  "(pystr \<rightharpoonup> pystr) \<Rightarrow> (pystr \<rightharpoonup> pystr list) \<Rightarrow> pystr list \<Rightarrow> py_error + (pystr \<rightharpoonup> pystr list)" where
  "blag_row blag_map ips row =
     (case row of
        [] \<Rightarrow> Inl IndexError
      | ip # codes \<Rightarrow>
          (case lookup_codes blag_map codes of
             Inl e \<Rightarrow> Inl e
           | Inr ds \<Rightarrow> Inr (ips(ip \<mapsto> ds))))"

definition parse_blag_list :: "(pystr \<rightharpoonup> pystr) \<Rightarrow> pystr \<Rightarrow> py_error + (pystr \<rightharpoonup> pystr list)" where
  "parse_blag_list blag_map blag_list =
     for_rows (blag_row blag_map) Map.empty (csv_reader (str_split blag_list))"

definition parse_blag_contents :: "pystr \<Rightarrow> pystr \<Rightarrow> py_error + (pystr \<rightharpoonup> pystr list)" where
  "parse_blag_contents blag_list map_list =
     (case parse_map_list map_list of
        Inl e \<Rightarrow> Inl e
      | Inr blag_map \<Rightarrow> parse_blag_list blag_map blag_list)"

text \<open>
  The records of a dataset text: the rows the reader yields for its tokens, up to the
  exception that ends the reading, if one does (\<open>reader_error\<close>).
\<close>

definition records :: "pystr \<Rightarrow> pystr list list" where
  "records text = fst (csv_reader (str_split text))"

definition reader_error :: "pystr \<Rightarrow> py_error option" where
  "reader_error text = snd (csv_reader (str_split text))"

section \<open>Lookup by ASN\<close>

text \<open>
  Modelled from the spec: \<open>lookup_asn\<close> is a method of the index object \<open>i2a\<close> that
  \<open>process_fsdb\<close> (\<open>main.py\<close>) is handed; its class is not among the sources, only the
  call \<open>i2a.lookup_asn(row[key_col], limit=1)\<close> is. The spec: a linear scan of all
  resolved entries whose descriptor ASN field equals the query, in dataset iteration
  order, truncated to \<open>limit\<close> results when \<open>limit > 0\<close>; a limit of 0 means unbounded.
  The records carry the fields \<open>process_fsdb\<close> reads from a result.
\<close>

record asn_record =
  ASN :: pystr
  owner :: pystr
  country :: pystr
  ip_range :: "int \<times> int"

definition lookup_asn :: "asn_record list \<Rightarrow> pystr \<Rightarrow> int \<Rightarrow> asn_record list" where
  "lookup_asn index asn limit =
     (let matches = filter (\<lambda>r. ASN r = asn) index
      in if 0 < limit then take (nat limit) matches else matches)"

section \<open>Lookup by address\<close>

text \<open>
  \<open>main.py\<close>, \<open>main\<close>: \<open>for ip in args.addresses: if ip in ips: print(f"{ip:<40} {', '.join(ips[ip])}")\<close>.
  \<open>lookup_address\<close> is the membership test with the subscript it guards; \<open>main_print\<close> is
  the loop, returning the lines it prints.
\<close>

definition lookup_address :: "(pystr \<rightharpoonup> pystr list) \<Rightarrow> pystr \<Rightarrow> pystr list option" where
  "lookup_address ips ip = (if ip \<in> dom ips then Some (the (ips ip)) else None)"

definition ljust :: "nat \<Rightarrow> pystr \<Rightarrow> pystr" where
  "ljust width s = s @ replicate (width - length s) 32"

fun str_join :: "pystr \<Rightarrow> pystr list \<Rightarrow> pystr" where
  "str_join sep [] = []"
| "str_join sep [x] = x"
| "str_join sep (x # y # ys) = x @ sep @ str_join sep (y # ys)"

definition format_line :: "pystr \<Rightarrow> pystr list \<Rightarrow> pystr" where
  "format_line ip ds = ljust 40 ip @ [32] @ str_join [44, 32] ds"

fun main_print :: "(pystr \<rightharpoonup> pystr list) \<Rightarrow> pystr list \<Rightarrow> pystr list" where
  "main_print ips [] = []"
| "main_print ips (ip # addresses) =
     (case lookup_address ips ip of
        None \<Rightarrow> main_print ips addresses
      | Some ds \<Rightarrow> format_line ip ds # main_print ips addresses)"

section \<open>The archive\<close>

text \<open>
  \<open>bytes.decode("utf-8")\<close>, strict: the code points of well-formed UTF-8, and
  \<open>UnicodeDecodeError\<close> at the first byte sequence that is not (a stray or missing
  continuation byte, an overlong form, a surrogate, a code point above U+10FFFF).
\<close>

definition continuation :: "nat \<Rightarrow> bool" where
  "continuation b \<longleftrightarrow> 128 \<le> b \<and> b \<le> 191"

definition second_ok :: "nat \<Rightarrow> nat \<Rightarrow> bool" where
  "second_ok b b1 \<longleftrightarrow>
     (if b = 224 then 160 \<le> b1 \<and> b1 \<le> 191
      else if b = 237 then 128 \<le> b1 \<and> b1 \<le> 159
      else if b = 240 then 144 \<le> b1 \<and> b1 \<le> 191
      else if b = 244 then 128 \<le> b1 \<and> b1 \<le> 143
      else continuation b1)"

text \<open>
  One code point from the front of the bytes, with the bytes left over: the lead byte
  tells the length of the sequence (1 to 4 bytes).
\<close>

fun two_bytes :: "nat \<Rightarrow> nat list \<Rightarrow> (nat \<times> nat list) option" where
  "two_bytes b (b1 # r) =
     (if continuation b1 then Some ((b - 192) * 64 + (b1 - 128), r) else None)"
| "two_bytes b [] = None"

fun three_bytes :: "nat \<Rightarrow> nat list \<Rightarrow> (nat \<times> nat list) option" where
  "three_bytes b (b1 # b2 # r) =
     (if second_ok b b1 \<and> continuation b2
      then Some ((b - 224) * 4096 + (b1 - 128) * 64 + (b2 - 128), r)
      else None)"
| "three_bytes b [b1] = None"
| "three_bytes b [] = None"

fun four_bytes :: "nat \<Rightarrow> nat list \<Rightarrow> (nat \<times> nat list) option" where
  "four_bytes b (b1 # b2 # b3 # r) =
     (if second_ok b b1 \<and> continuation b2 \<and> continuation b3
      then Some ((b - 240) * 262144 + (b1 - 128) * 4096 + (b2 - 128) * 64 + (b3 - 128), r)
      else None)"
| "four_bytes b [b1, b2] = None"
| "four_bytes b [b1] = None"
| "four_bytes b [] = None"

fun utf8_next :: "nat list \<Rightarrow> (nat \<times> nat list) option" where
  "utf8_next [] = None"
| "utf8_next (b # bs) =
     (if b < 128 then Some (b, bs)
      else if 194 \<le> b \<and> b \<le> 223 then two_bytes b bs
      else if 224 \<le> b \<and> b \<le> 239 then three_bytes b bs
      else if 240 \<le> b \<and> b \<le> 244 then four_bytes b bs
      else None)"

lemma two_bytes_shorter: "two_bytes b bs = Some (c, r) \<Longrightarrow> length r < length bs"
  by (cases "(b, bs)" rule: two_bytes.cases) (auto split: if_splits)

lemma three_bytes_shorter: "three_bytes b bs = Some (c, r) \<Longrightarrow> length r < length bs"
  by (cases "(b, bs)" rule: three_bytes.cases) (auto split: if_splits)

lemma four_bytes_shorter: "four_bytes b bs = Some (c, r) \<Longrightarrow> length r < length bs"
  by (cases "(b, bs)" rule: four_bytes.cases) (auto split: if_splits)

lemma utf8_next_shorter: "utf8_next bs = Some (c, r) \<Longrightarrow> length r < length bs"
proof (cases bs)
  case Nil
  then show "utf8_next bs = Some (c, r) \<Longrightarrow> length r < length bs" by simp
next
  case (Cons b bs')
  assume "utf8_next bs = Some (c, r)"
  with Cons have "length r \<le> length bs'"
    using two_bytes_shorter[of b bs' c r] three_bytes_shorter[of b bs' c r]
      four_bytes_shorter[of b bs' c r]
    by (auto split: if_splits)
  with Cons show "length r < length bs" by simp
qed

function utf8_decode :: "nat list \<Rightarrow> py_error + pystr" where
  "utf8_decode bs =
     (if bs = [] then Inr []
      else
        (case utf8_next bs of
           None \<Rightarrow> Inl UnicodeDecodeError
         | Some (c, r) \<Rightarrow>
             (case utf8_decode r of
                Inl e \<Rightarrow> Inl e
              | Inr s \<Rightarrow> Inr (c # s))))"
  by pat_completeness auto
termination
  by (relation "measure length") (auto dest: utf8_next_shorter)

declare utf8_decode.simps [simp del]

definition decode :: "pybytes \<Rightarrow> py_error + pystr" where
  "decode bs = utf8_decode (map of_char bs)"

text \<open>
  \<open>zipfile.ZipFile\<close>: an archive that opened, as the list of its members in directory
  order (\<open>infolist()\<close>), each a file name and its content. \<open>ZipFile.open(name)\<close> goes
  through \<open>getinfo\<close>, which looks the name up in \<open>NameToInfo\<close>; the directory scan stores
  every member under its name in turn, so a name that several members carry reads the last
  of them, and a name no member carries raises \<open>KeyError\<close>. What fails before or
  below this (a file that is not a zip archive, an encrypted or damaged member) is outside
  the model.
\<close>

type_synonym zip_archive = "(pystr \<times> pybytes) list"

definition zip_read :: "zip_archive \<Rightarrow> pystr \<Rightarrow> py_error + pybytes" where
  "zip_read zfile name =
     (case map_of (rev zfile) name of
        None \<Rightarrow> Inl (KeyError name)
      | Some contents \<Rightarrow> Inr contents)"

text \<open>
  \<open>fetch_blag_files\<close> (\<open>main.py\<close>): \<open>items[1]\<close> and \<open>items[2]\<close> raise \<open>IndexError\<close> on a
  list that is too short; both members are read before either is decoded.
\<close>

definition fetch_blag_files :: "zip_archive \<Rightarrow> py_error + pystr \<times> pystr" where
  "fetch_blag_files zfile =
     (if length zfile \<le> 1 then Inl IndexError
      else if length zfile \<le> 2 then Inl IndexError
      else
        (case zip_read zfile (fst (zfile ! 1)) of
           Inl e \<Rightarrow> Inl e
         | Inr blag_contents \<Rightarrow>
             (case zip_read zfile (fst (zfile ! 2)) of
                Inl e \<Rightarrow> Inl e
              | Inr map_contents \<Rightarrow>
                  (case decode blag_contents of
                     Inl e \<Rightarrow> Inl e
                   | Inr b \<Rightarrow>
                       (case decode map_contents of
                          Inl e \<Rightarrow> Inl e
                        | Inr m \<Rightarrow> Inr (b, m))))))"

section \<open>The class \<open>BlagBL\<close> (\<open>__init__.py\<close>)\<close>

text \<open>
  A \<open>defaultdict(list)\<close>: a dict with the default factory \<open>list\<close>. Storing under a key is
  the dict's own; the subscript of a missing key stores the empty list under the key and
  returns it.
\<close>

datatype defaultdict = Defaultdict (dict_of: "pystr \<rightharpoonup> pystr list")

definition defaultdict_setitem :: "defaultdict \<Rightarrow> pystr \<Rightarrow> pystr list \<Rightarrow> defaultdict" where
  "defaultdict_setitem d k v = Defaultdict ((dict_of d)(k \<mapsto> v))"

definition defaultdict_getitem :: "defaultdict \<Rightarrow> pystr \<Rightarrow> pystr list \<times> defaultdict" where
  "defaultdict_getitem d k =
     (case dict_of d k of
        None \<Rightarrow> ([], defaultdict_setitem d k [])
      | Some v \<Rightarrow> (v, d))"

text \<open>
  The object: the archive behind the path \<open>self.database\<close>, and the attributes the methods
  set (\<open>None\<close> until then). A method returns its result, or the exception it raises,
  together with the object as the call leaves it.
\<close>

record BlagBL =
  database :: zip_archive
  blag_list :: "pystr option"
  map_list :: "pystr option"
  ips :: "defaultdict option"

definition extract_blag_files :: "BlagBL \<Rightarrow> (py_error + pystr \<times> pystr) \<times> BlagBL" where
  "extract_blag_files self =
     (let zfile = database self in
      if length zfile \<le> 1 then (Inl IndexError, self)
      else if length zfile \<le> 2 then (Inl IndexError, self)
      else
        (case zip_read zfile (fst (zfile ! 1)) of
           Inl e \<Rightarrow> (Inl e, self)
         | Inr blag_contents \<Rightarrow>
             (case zip_read zfile (fst (zfile ! 2)) of
                Inl e \<Rightarrow> (Inl e, self)
              | Inr map_contents \<Rightarrow>
                  (case decode blag_contents of
                     Inl e \<Rightarrow> (Inl e, self)
                   | Inr b \<Rightarrow>
                       (case decode map_contents of
                          Inl e \<Rightarrow> (Inl e, self\<lparr>blag_list := Some b\<rparr>)
                        | Inr m \<Rightarrow>
                            (Inr (b, m), self\<lparr>blag_list := Some b, map_list := Some m\<rparr>))))))"

text \<open>
  \<open>BlagBL.parse_blag_contents\<close>. \<open>not self.blag_list\<close> holds of \<open>None\<close> and of the empty
  string. The two loops are written out again here as the method has them
  (\<open>BlagBL_parse_map_list\<close>, \<open>BlagBL_parse_blag_list\<close>); the entries loop stores into a
  \<open>defaultdict(list)\<close>.
\<close>

definition falsy :: "pystr option \<Rightarrow> bool" where
  "falsy s \<longleftrightarrow> s = None \<or> s = Some []"

definition BlagBL_map_row :: "(pystr \<rightharpoonup> pystr) \<Rightarrow> pystr list \<Rightarrow> py_error + (pystr \<rightharpoonup> pystr)" where
  "BlagBL_map_row blag_map row =
     (if length row < 2 then Inl IndexError
      else Inr (blag_map(row ! 1 \<mapsto> row ! 0)))"

definition BlagBL_blag_row ::
  "(pystr \<rightharpoonup> pystr) \<Rightarrow> defaultdict \<Rightarrow> pystr list \<Rightarrow> py_error + defaultdict" where
  "BlagBL_blag_row blag_map d row =
     (case row of
        [] \<Rightarrow> Inl IndexError
      | ip # codes \<Rightarrow>
          (case lookup_codes blag_map codes of
             Inl e \<Rightarrow> Inl e
           | Inr ds \<Rightarrow> Inr (defaultdict_setitem d ip ds)))"

definition BlagBL_parse_map_list :: "pystr \<Rightarrow> py_error + (pystr \<rightharpoonup> pystr)" where
  "BlagBL_parse_map_list m = for_rows BlagBL_map_row Map.empty (csv_reader (str_split m))"

definition BlagBL_parse_blag_list :: "(pystr \<rightharpoonup> pystr) \<Rightarrow> pystr \<Rightarrow> py_error + defaultdict" where
  "BlagBL_parse_blag_list blag_map b =
     for_rows (BlagBL_blag_row blag_map) (Defaultdict Map.empty) (csv_reader (str_split b))"

definition BlagBL_parse_blag_contents :: "BlagBL \<Rightarrow> (py_error + defaultdict) \<times> BlagBL" where
  "BlagBL_parse_blag_contents self =
     (case (if falsy (blag_list self) \<or> falsy (map_list self)
            then extract_blag_files self
            else (Inr (the (blag_list self), the (map_list self)), self)) of
        (Inl e, self') \<Rightarrow> (Inl e, self')
      | (Inr (b, m), self') \<Rightarrow>
          (case BlagBL_parse_map_list m of
             Inl e \<Rightarrow> (Inl e, self')
           | Inr blag_map \<Rightarrow>
               (case BlagBL_parse_blag_list blag_map b of
                  Inl e \<Rightarrow> (Inl e, self')
                | Inr d \<Rightarrow> (Inr d, self'\<lparr>ips := Some d\<rparr>))))"

text \<open>
  \<open>tools/main.py\<close>, \<open>main\<close>: \<open>for ip in args.addresses: print(f"{ip:<40} {', '.join(bl.ips[ip])}")\<close>,
  on the \<open>defaultdict\<close> the method stored in \<open>bl.ips\<close>. It returns the lines printed and the
  dict as the loop leaves it.
\<close>

fun tools_main_print :: "defaultdict \<Rightarrow> pystr list \<Rightarrow> pystr list \<times> defaultdict" where
  "tools_main_print d [] = ([], d)"
| "tools_main_print d (ip # addresses) =
     (case defaultdict_getitem d ip of
        (ds, d') \<Rightarrow>
          (case tools_main_print d' addresses of
             (lines, d'') \<Rightarrow> (format_line ip ds # lines, d'')))"

section \<open>The standard module \<open>ipaddress\<close>\<close>

unbundle bit_operations_syntax

text \<open>
  Python integers are unbounded: \<open>int\<close>. \<open>x.bit_length()\<close> is the number of binary
  digits of \<open>|x|\<close>.
\<close>

fun nat_bit_length :: "nat \<Rightarrow> nat" where
  "nat_bit_length n = (if n = 0 then 0 else Suc (nat_bit_length (n div 2)))"

declare nat_bit_length.simps [simp del]

definition bit_length :: "int \<Rightarrow> nat" where
  "bit_length x = nat_bit_length (nat \<bar>x\<bar>)"

text \<open>\<open>_count_righthand_zero_bits(number, bits)\<close>.\<close>

definition count_righthand_zero_bits :: "int \<Rightarrow> nat \<Rightarrow> nat" where
  "count_righthand_zero_bits number bits =
     (if number = 0 then bits
      else min bits (bit_length (NOT number AND (number - 1))))"

text \<open>
  Addresses and networks of the two families. An address is its integer \<open>_ip\<close>; a
  network is its network address and its prefix length. \<open>max_prefixlen\<close> is 32 for IPv4
  and 128 for IPv6, \<open>ALL_ONES\<close> the largest address of the family.
\<close>

datatype ip_address = IPv4Address int | IPv6Address int

datatype ip_network = IPv4Network int int | IPv6Network int int

definition ALL_ONES :: "nat \<Rightarrow> int" where
  "ALL_ONES max_prefixlen = 2 ^ max_prefixlen - 1"

text \<open>
  The constructors from an integer: \<open>_check_int_address\<close> raises \<open>AddressValueError\<close>
  below 0 and above \<open>ALL_ONES\<close>.
\<close>

definition check_int_address :: "nat \<Rightarrow> int \<Rightarrow> bool" where
  "check_int_address max_prefixlen address \<longleftrightarrow> 0 \<le> address \<and> address \<le> ALL_ONES max_prefixlen"

definition new_IPv4Address :: "int \<Rightarrow> py_error + ip_address" where
  "new_IPv4Address address =
     (if check_int_address 32 address then Inr (IPv4Address address) else Inl AddressValueError)"

definition new_IPv6Address :: "int \<Rightarrow> py_error + ip_address" where
  "new_IPv6Address address =
     (if check_int_address 128 address then Inr (IPv6Address address) else Inl AddressValueError)"

text \<open>
  The network constructor from a pair \<open>(address, prefixlen)\<close>, strict: the address is
  checked as above, the prefix length must lie in \<open>0..max_prefixlen\<close>
  (\<open>NetmaskValueError\<close>), and the address must have no bit set outside the netmask
  (\<open>ValueError\<close>, "has host bits set").
\<close>

definition ip_int_from_prefix :: "nat \<Rightarrow> int \<Rightarrow> int" where
  "ip_int_from_prefix max_prefixlen prefixlen =
     ALL_ONES max_prefixlen XOR drop_bit (nat prefixlen) (ALL_ONES max_prefixlen)"

definition new_network :: "nat \<Rightarrow> int \<Rightarrow> int \<Rightarrow> py_error + ip_network" where
  "new_network max_prefixlen address prefixlen =
     (if check_int_address max_prefixlen address then
        (if 0 \<le> prefixlen \<and> prefixlen \<le> int max_prefixlen then
           (if address AND ip_int_from_prefix max_prefixlen prefixlen = address
            then Inr (if max_prefixlen = 32 then IPv4Network address prefixlen
                      else IPv6Network address prefixlen)
            else Inl ValueError)
         else Inl NetmaskValueError)
      else Inl AddressValueError)"

text \<open>
  \<open>summarize_address_range(first, last)\<close> is a generator; as for the csv reader, its
  model is the list of networks it yields and the exception that ends it, if one does.
  \<open>summarize_loop\<close> is its \<open>while\<close> loop.
\<close>

definition nbits_of :: "nat \<Rightarrow> int \<Rightarrow> int \<Rightarrow> nat" where
  "nbits_of ip_bits first_int last_int =
     min (count_righthand_zero_bits first_int ip_bits)
         (bit_length (last_int - first_int + 1) - 1)"

function summarize_loop :: "nat \<Rightarrow> int \<Rightarrow> int \<Rightarrow> ip_network list \<times> py_error option" where
  "summarize_loop ip_bits first_int last_int =
     (if first_int \<le> last_int then
        (let nbits = nbits_of ip_bits first_int last_int in
         case new_network ip_bits first_int (int ip_bits - int nbits) of
           Inl e \<Rightarrow> ([], Some e)
         | Inr net \<Rightarrow>
             (if first_int + 2 ^ nbits - 1 = ALL_ONES ip_bits then ([net], None)
              else
                (case summarize_loop ip_bits (first_int + 2 ^ nbits) last_int of
                   (nets, e) \<Rightarrow> (net # nets, e))))
      else ([], None))"
  by pat_completeness auto
termination
  by (relation "measure (\<lambda>(ip_bits, first_int, last_int). nat (last_int - first_int + 1))") auto

declare summarize_loop.simps [simp del]

fun version :: "ip_address \<Rightarrow> nat" where
  "version (IPv4Address a) = 4"
| "version (IPv6Address a) = 6"

fun ip_of :: "ip_address \<Rightarrow> int" where
  "ip_of (IPv4Address a) = a"
| "ip_of (IPv6Address a) = a"

definition summarize_address_range ::
  "ip_address \<Rightarrow> ip_address \<Rightarrow> ip_network list \<times> py_error option" where
  "summarize_address_range first_ip last_ip =
     (if version first_ip \<noteq> version last_ip then ([], Some TypeError)
      else if ip_of first_ip > ip_of last_ip then ([], Some ValueError)
      else summarize_loop (if version first_ip = 4 then 32 else 128) (ip_of first_ip) (ip_of last_ip))"

text \<open>
  \<open>str\<close> of a network: the address, a slash, the prefix length. An IPv4 address prints as
  its four bytes in decimal, joined by dots; an IPv6 address as its eight 16-bit groups
  in hexadecimal, joined by colons, the first longest run of two or more zero groups
  compressed to \<open>::\<close>.
\<close>

fun decimal :: "nat \<Rightarrow> pystr" where
  "decimal n = (if n < 10 then [48 + n] else decimal (n div 10) @ [48 + n mod 10])"

declare decimal.simps [simp del]

definition hexdigit :: "nat \<Rightarrow> nat" where
  "hexdigit d = (if d < 10 then 48 + d else 87 + d)"

fun hex :: "nat \<Rightarrow> pystr" where
  "hex n = (if n < 16 then [hexdigit n] else hex (n div 16) @ [hexdigit (n mod 16)])"

declare hex.simps [simp del]

definition str_int :: "int \<Rightarrow> pystr" where
  "str_int i = (if i < 0 then 45 # decimal (nat (- i)) else decimal (nat i))"

definition IPv4_string_from_ip_int :: "int \<Rightarrow> pystr" where
  "IPv4_string_from_ip_int ip_int =
     str_join [46]
       (map (\<lambda>i. decimal (nat ((ip_int div 2 ^ (8 * i)) mod 256))) [3, 2, 1, 0])"

fun compress_scan :: "int \<Rightarrow> pystr list \<Rightarrow> int \<times> int \<times> int \<times> int \<Rightarrow> int \<times> int" where
  "compress_scan index [] (best_start, best_len, dc_start, dc_len) = (best_start, best_len)"
| "compress_scan index (hextet # hextets) (best_start, best_len, dc_start, dc_len) =
     (if hextet = [48] then
        (let dc_len' = dc_len + 1;
             dc_start' = (if dc_start = - 1 then index else dc_start)
         in if dc_len' > best_len
            then compress_scan (index + 1) hextets (dc_start', dc_len', dc_start', dc_len')
            else compress_scan (index + 1) hextets (best_start, best_len, dc_start', dc_len'))
      else compress_scan (index + 1) hextets (best_start, best_len, - 1, 0))"

definition compress_hextets :: "pystr list \<Rightarrow> pystr list" where
  "compress_hextets hextets =
     (case compress_scan 0 hextets (- 1, 0, - 1, 0) of
        (best_start, best_len) \<Rightarrow>
          (if best_len > 1 then
             (let best_end = best_start + best_len;
                  hs = (if best_end = int (length hextets) then hextets @ [[]] else hextets);
                  hs' = take (nat best_start) hs @ [[]] @ drop (nat best_end) hs
              in if best_start = 0 then [] # hs' else hs')
           else hextets))"

definition IPv6_string_from_ip_int :: "int \<Rightarrow> pystr" where
  "IPv6_string_from_ip_int ip_int =
     str_join [58]
       (compress_hextets
          (map (\<lambda>i. hex (nat ((ip_int div 2 ^ (16 * i)) mod 65536))) [7, 6, 5, 4, 3, 2, 1, 0]))"

fun str_network :: "ip_network \<Rightarrow> pystr" where
  "str_network (IPv4Network a p) = IPv4_string_from_ip_int a @ [47] @ str_int p"
| "str_network (IPv6Network a p) = IPv6_string_from_ip_int a @ [47] @ str_int p"

section \<open>\<open>output_pcap_filter\<close> (\<open>main.py\<close>)\<close>

text \<open>
  The loop over the \<open>ip_range\<close> pairs of the results. \<open>networks\<close> collects, in order, the
  networks whose strings the loop appends to \<open>expressions\<close> (each as \<open>net \<close> and the
  network's \<open>str\<close>); an exception of a constructor or of the generator ends the call.
  The family test is the source's \<open>left <= 2**33\<close>.
\<close>

definition range_addresses :: "int \<times> int \<Rightarrow> py_error + ip_address \<times> ip_address" where
  "range_addresses r =
     (case r of (left, right) \<Rightarrow>
        (if left \<le> 2 ^ 33 then
           (case new_IPv4Address left of
              Inl e \<Rightarrow> Inl e
            | Inr l \<Rightarrow> (case new_IPv4Address right of Inl e \<Rightarrow> Inl e | Inr r \<Rightarrow> Inr (l, r)))
         else
           (case new_IPv6Address left of
              Inl e \<Rightarrow> Inl e
            | Inr l \<Rightarrow> (case new_IPv6Address right of Inl e \<Rightarrow> Inl e | Inr r \<Rightarrow> Inr (l, r)))))"

fun networks :: "(int \<times> int) list \<Rightarrow> py_error + ip_network list" where
  "networks [] = Inr []"
| "networks (r # results) =
     (case range_addresses r of
        Inl e \<Rightarrow> Inl e
      | Inr (left, right) \<Rightarrow>
          (case summarize_address_range left right of
             (nets, Some e) \<Rightarrow> Inl e
           | (nets, None) \<Rightarrow>
               (case networks results of
                  Inl e \<Rightarrow> Inl e
                | Inr rest \<Rightarrow> Inr (nets @ rest))))"

definition expressions :: "ip_network list \<Rightarrow> pystr list" where
  "expressions nets = map (\<lambda>n. [110, 101, 116, 32] @ str_network n) nets"

text \<open>What the call writes to standard output when no exception ends it.\<close>

definition output_pcap_filter :: "(int \<times> int) list \<Rightarrow> py_error + pystr" where
  "output_pcap_filter results =
     (case networks results of
        Inl e \<Rightarrow> Inl e
      | Inr nets \<Rightarrow>
          Inr ([40, 32] @ str_join [32, 111, 114, 32] (expressions nets) @ [32, 41, 10]))"

text \<open>
  What a network stands for: the \<open>num_addresses\<close> \<open>= 2 ^ (max_prefixlen - prefixlen)\<close>
  addresses from its network address up to its broadcast address.
\<close>

fun max_prefixlen :: "ip_network \<Rightarrow> nat" where
  "max_prefixlen (IPv4Network a p) = 32"
| "max_prefixlen (IPv6Network a p) = 128"

fun network_address :: "ip_network \<Rightarrow> int" where
  "network_address (IPv4Network a p) = a"
| "network_address (IPv6Network a p) = a"

fun prefixlen :: "ip_network \<Rightarrow> int" where
  "prefixlen (IPv4Network a p) = p"
| "prefixlen (IPv6Network a p) = p"

definition num_addresses :: "ip_network \<Rightarrow> int" where
  "num_addresses net = 2 ^ (max_prefixlen net - nat (prefixlen net))"

definition addresses :: "ip_network \<Rightarrow> int set" where
  "addresses net = {network_address net ..< network_address net + num_addresses net}"

section \<open>Auxiliary notions for the proofs\<close>

text \<open>
  A block \<open>(a, k)\<close> is the \<open>2 ^ k\<close> integers from \<open>a\<close> on; it is aligned when \<open>2 ^ k\<close>
  divides \<open>a\<close>. \<open>block_net bits (a, k)\<close> is the network of the family with \<open>bits\<close> address
  bits that covers the block.
\<close>

definition block_cover :: "int \<times> nat \<Rightarrow> int set" where
  "block_cover b = {fst b ..< fst b + 2 ^ snd b}"

definition aligned :: "int \<times> nat \<Rightarrow> bool" where
  "aligned b \<longleftrightarrow> 2 ^ snd b dvd fst b"

definition block_net :: "nat \<Rightarrow> int \<times> nat \<Rightarrow> ip_network" where
  "block_net bits b =
     (if bits = 32 then IPv4Network (fst b) (int bits - int (snd b))
      else IPv6Network (fst b) (int bits - int (snd b)))"

text \<open>
  The reader inside a record (a field is pending), and lines as \<open>str.split()\<close> yields
  them: not empty, with no carriage return or line feed.
\<close>

definition pending :: "reader \<Rightarrow> bool" where
  "pending r \<longleftrightarrow> state r = START_FIELD \<or> state r = IN_FIELD \<or> state r = IN_QUOTED_FIELD \<or> state r = QUOTE_IN_QUOTED_FIELD"

definition clean_lines :: "pystr list \<Rightarrow> bool" where
  "clean_lines ls \<longleftrightarrow> (\<forall>l\<in>set ls. l \<noteq> [] \<and> (\<forall>c\<in>set l. c \<noteq> 10 \<and> c \<noteq> 13))"

text \<open>The reader outside quotes: at the start of a record or of a field, or in a field.\<close>

definition plain :: "reader \<Rightarrow> bool" where
  "plain r \<longleftrightarrow> state r = START_RECORD \<or> state r = START_FIELD \<or> state r = IN_FIELD"

section \<open>The reader on the tokens of a text\<close>

lemma split_from_tokens:
  "\<forall>c\<in>set cur. \<not> isspace c \<Longrightarrow>
   \<forall>t\<in>set (split_from cur s). t \<noteq> [] \<and> (\<forall>c\<in>set t. \<not> isspace c)"
proof (induction s arbitrary: cur)
  case Nil
  then show ?case by simp
next
  case (Cons a s)
  have e: "\<forall>t\<in>set (split_from [] s). t \<noteq> [] \<and> (\<forall>c\<in>set t. \<not> isspace c)"
    using Cons.IH[of "[]"] by simp
  show ?case
  proof (cases "isspace a")
    case True
    with e Cons.prems show ?thesis by simp
  next
    case False
    with Cons.IH[of "a # cur"] Cons.prems show ?thesis by simp
  qed
qed

lemma str_split_tokens:
  "t \<in> set (str_split s) \<Longrightarrow> t \<noteq> [] \<and> (\<forall>c\<in>set t. \<not> isspace c)"
  unfolding str_split_def using split_from_tokens[of "[]" s] by simp

lemma char_step:
  assumes "pending r \<or> state r = START_RECORD" "c \<noteq> 10" "c \<noteq> 13"
  shows "case parse_process_char r (Some c) of Inl e \<Rightarrow> e = csv_Error | Inr r' \<Rightarrow> pending r'"
  using assms
  by (cases "state r") (auto simp: parse_process_char_def start_field_def pending_def is_crlf_def
      parse_save_field_def parse_add_char_def add_char_then_def)

lemma eol_step:
  assumes "pending r"
  shows "\<exists>r'. parse_process_char r None = Inr r' \<and>
     ((state r' = START_RECORD \<and> fields' r' \<noteq> []) \<or> (state r' = IN_QUOTED_FIELD))"
  using assms
  by (cases "state r") (auto simp: parse_process_char_def start_field_def pending_def is_crlf_def
      parse_save_field_def end_of_line_def)

lemma line_step_pending:
  assumes "pending r" "\<forall>c\<in>set l. c \<noteq> 10 \<and> c \<noteq> 13"
  shows "case process_line r l of
           Inl e \<Rightarrow> e = csv_Error
         | Inr r' \<Rightarrow> (state r' = START_RECORD \<and> fields' r' \<noteq> []) \<or> state r' = IN_QUOTED_FIELD"
  using assms
proof (induction l arbitrary: r)
  case Nil
  then show ?case using eol_step[of r] by auto
next
  case (Cons c cs)
  show ?case
  proof (cases "parse_process_char r (Some c)")
    case (Inl e)
    with char_step[of r c] Cons.prems show ?thesis by simp
  next
    case (Inr r1)
    with char_step[of r c] Cons.prems have "pending r1" by simp
    with Cons.IH[of r1] Cons.prems Inr show ?thesis by simp
  qed
qed

lemma line_step:
  assumes "pending r \<or> state r = START_RECORD" "l \<noteq> []" "\<forall>c\<in>set l. c \<noteq> 10 \<and> c \<noteq> 13"
  shows "case process_line r l of
           Inl e \<Rightarrow> e = csv_Error
         | Inr r' \<Rightarrow> (state r' = START_RECORD \<and> fields' r' \<noteq> []) \<or> state r' = IN_QUOTED_FIELD"
proof (cases l)
  case Nil with assms show ?thesis by simp
next
  case (Cons c cs)
  show ?thesis
  proof (cases "parse_process_char r (Some c)")
    case (Inl e)
    with char_step[of r c] assms Cons show ?thesis by simp
  next
    case (Inr r1)
    with char_step[of r c] assms Cons have "pending r1" by simp
    with line_step_pending[of r1 cs] assms Cons Inr show ?thesis by simp
  qed
qed

lemma reader_rows_clean:
  assumes "clean_lines ls" "state r = IN_QUOTED_FIELD \<or> r = parse_reset"
  shows "(snd (reader_rows r ls) = None \<or> snd (reader_rows r ls) = Some csv_Error)
       \<and> (\<forall>row\<in>set (fst (reader_rows r ls)). row \<noteq> [])"
  using assms
proof (induction ls arbitrary: r)
  case Nil
  then show ?case by (auto simp: parse_reset_def parse_save_field_def)
next
  case (Cons l ls)
  have pr: "pending r \<or> state r = START_RECORD"
    using Cons.prems(2) by (auto simp: pending_def parse_reset_def)
  from Cons.prems(1) have l: "l \<noteq> []" "\<forall>c\<in>set l. c \<noteq> 10 \<and> c \<noteq> 13" and ls: "clean_lines ls"
    by (auto simp: clean_lines_def)
  note st = line_step[OF pr l]
  show ?case
  proof (cases "process_line r l")
    case (Inl e)
    with st show ?thesis by simp
  next
    case (Inr r')
    with st have d: "(state r' = START_RECORD \<and> fields' r' \<noteq> []) \<or> state r' = IN_QUOTED_FIELD"
      by simp
    show ?thesis
    proof (cases "state r' = START_RECORD")
      case True
      with Inr d Cons.IH[OF ls, of parse_reset] show ?thesis
        by (auto split: prod.splits)
    next
      case False
      with Inr d Cons.IH[OF ls, of r'] show ?thesis by auto
    qed
  qed
qed

lemma isspace_crlf: "isspace 10" "isspace 13"
  by (simp_all add: isspace_def)

lemma str_split_clean: "clean_lines (str_split s)"
  unfolding clean_lines_def
proof (intro ballI conjI)
  fix l assume l: "l \<in> set (str_split s)"
  from str_split_tokens[OF l] show "l \<noteq> []" by simp
  fix c assume c: "c \<in> set l"
  with str_split_tokens[OF l] have "\<not> isspace c" by simp
  then show "c \<noteq> 10" "c \<noteq> 13" using isspace_crlf by auto
qed

lemma csv_reader_split:
  "csv_reader (str_split s) = (records s, reader_error s)"
  "row \<in> set (records s) \<Longrightarrow> row \<noteq> []"
  "reader_error s = None \<or> reader_error s = Some csv_Error"
  using reader_rows_clean[OF str_split_clean, of parse_reset s]
  by (auto simp: records_def reader_error_def csv_reader_def)

section \<open>The field size limit\<close>

lemma split_from_replicate:
  "\<not> isspace a \<Longrightarrow> split_from cur (replicate n a @ s) = split_from (replicate n a @ cur) s"
proof (induction n arbitrary: cur)
  case 0
  then show ?case by simp
next
  case (Suc n)
  have "split_from cur (replicate (Suc n) a @ s) = split_from (a # cur) (replicate n a @ s)"
    using Suc.prems by simp
  also have "\<dots> = split_from (replicate n a @ a # cur) s" by (rule Suc.IH[OF Suc.prems])
  also have "replicate n a @ a # cur = replicate (Suc n) a @ cur"
    by (simp add: replicate_app_Cons_same)
  finally show ?case .
qed

lemma str_split_replicate:
  "\<not> isspace a \<Longrightarrow> str_split (replicate n a @ s) = split_from (replicate n a) s"
  unfolding str_split_def using split_from_replicate[of a "[]" n s] by simp

lemma in_field_overflow:
  assumes "state r = IN_FIELD" "length (field r) \<le> field_limit"
    "field_limit < length (field r) + n"
  shows "process_line r (replicate n 97 @ l) = Inl csv_Error"
  using assms
proof (induction n arbitrary: r)
  case 0
  then show ?case by simp
next
  case (Suc n)
  show ?case
  proof (cases "length (field r) = field_limit")
    case True
    with Suc.prems(1) have "parse_process_char r (Some 97) = Inl csv_Error"
      by (simp add: parse_process_char_def is_crlf_def add_char_then_def parse_add_char_def)
    then show ?thesis by simp
  next
    case False
    with Suc.prems(2) have lt: "length (field r) < field_limit" by simp
    let ?r = "r\<lparr>field := field r @ [97]\<rparr>"
    have st: "parse_process_char r (Some 97) = Inr ?r"
      using Suc.prems(1) lt
      by (simp add: parse_process_char_def is_crlf_def add_char_then_def parse_add_char_def)
    have "process_line ?r (replicate n 97 @ l) = Inl csv_Error"
      using Suc.prems lt by (intro Suc.IH) simp_all
    with st show ?thesis by simp
  qed
qed

lemma oversize_line:
  assumes "field_limit < n"
  shows "process_line parse_reset (replicate n 97 @ l) = Inl csv_Error"
proof -
  from assms obtain m where n: "n = Suc m" by (cases n) auto
  let ?r = "\<lparr>state = IN_FIELD, fields' = [], field = [97]\<rparr>"
  have st: "parse_process_char parse_reset (Some 97) = Inr ?r"
    by (simp add: parse_process_char_def parse_reset_def start_field_def is_crlf_def
        add_char_then_def parse_add_char_def field_limit_def)
  have "process_line ?r (replicate m 97 @ l) = Inl csv_Error"
    using assms n by (intro in_field_overflow) (simp_all add: field_limit_def)
  with st show ?thesis by (simp add: n)
qed

lemma oversize_first:
  assumes "field_limit < n"
  shows "csv_reader ((replicate n 97 @ l) # ls) = ([], Some csv_Error)"
  by (simp add: csv_reader_def oversize_line[OF assms])

lemma plain_char_step:
  assumes "plain r" "c \<noteq> 10" "c \<noteq> 13" "c \<noteq> 34" "length (field r) < field_limit"
  shows "\<exists>r'. parse_process_char r (Some c) = Inr r' \<and> plain r'
           \<and> state r' \<noteq> START_RECORD \<and> length (field r') \<le> Suc (length (field r))"
  using assms
  by (cases "state r") (auto simp: parse_process_char_def start_field_def plain_def is_crlf_def
      parse_save_field_def parse_add_char_def add_char_then_def)

lemma plain_eol_step:
  assumes "plain r"
  shows "\<exists>r'. parse_process_char r None = Inr r' \<and> state r' = START_RECORD"
  using assms
  by (cases "state r") (auto simp: parse_process_char_def start_field_def plain_def is_crlf_def
      parse_save_field_def end_of_line_def)

lemma plain_line:
  assumes "plain r" "\<forall>c\<in>set l. c \<noteq> 10 \<and> c \<noteq> 13 \<and> c \<noteq> 34"
    "length (field r) + length l \<le> field_limit"
  shows "\<exists>r'. process_line r l = Inr r' \<and> state r' = START_RECORD"
  using assms
proof (induction l arbitrary: r)
  case Nil
  then show ?case using plain_eol_step[of r] by simp
next
  case (Cons c cs)
  from Cons.prems have lt: "length (field r) < field_limit" by simp
  from plain_char_step[OF Cons.prems(1) _ _ _ lt, of c] Cons.prems(2)
  obtain r1 where r1: "parse_process_char r (Some c) = Inr r1" "plain r1"
    "length (field r1) \<le> Suc (length (field r))" by auto
  have "length (field r1) + length cs \<le> field_limit" using r1(3) Cons.prems(3) by simp
  from Cons.IH[OF r1(2) _ this] Cons.prems(2) r1(1) show ?case by simp
qed

lemma reader_rows_plain:
  assumes "\<forall>l\<in>set ls. length l \<le> field_limit \<and> (\<forall>c\<in>set l. c \<noteq> 10 \<and> c \<noteq> 13 \<and> c \<noteq> 34)"
  shows "snd (reader_rows parse_reset ls) = None"
  using assms
proof (induction ls)
  case Nil
  then show ?case by (simp add: parse_reset_def)
next
  case (Cons l ls)
  have p: "plain parse_reset" by (simp add: plain_def parse_reset_def)
  have f: "length (field parse_reset) + length l \<le> field_limit"
    using Cons.prems by (simp add: parse_reset_def)
  from plain_line[OF p _ f] Cons.prems obtain r' where
    r': "process_line parse_reset l = Inr r'" "state r' = START_RECORD" by auto
  from Cons.IH Cons.prems have "snd (reader_rows parse_reset ls) = None" by simp
  with r' show ?case by (auto split: prod.splits)
qed

lemma reader_accepts:
  assumes "\<forall>t\<in>set (str_split s). length t \<le> field_limit \<and> 34 \<notin> set t"
  shows "reader_error s = None"
proof -
  have "\<forall>l\<in>set (str_split s). length l \<le> field_limit \<and> (\<forall>c\<in>set l. c \<noteq> 10 \<and> c \<noteq> 13 \<and> c \<noteq> 34)"
  proof
    fix l assume l: "l \<in> set (str_split s)"
    from str_split_clean[of s] l have "\<forall>c\<in>set l. c \<noteq> 10 \<and> c \<noteq> 13"
      by (simp add: clean_lines_def)
    with assms l show "length l \<le> field_limit \<and> (\<forall>c\<in>set l. c \<noteq> 10 \<and> c \<noteq> 13 \<and> c \<noteq> 34)"
      by auto
  qed
  from reader_rows_plain[OF this] show ?thesis
    by (simp add: reader_error_def csv_reader_def)
qed

section \<open>Lookup by ASN: the limit\<close>

text \<open>
  C4. For every ASN query and every limit \<open>k > 0\<close>, \<open>lookup_asn\<close> returns at most \<open>k\<close>
  records, they are a prefix (in index order) of what it returns with no limit, and the
  limit 0 is the unbounded scan: every record of the index with that ASN, in index order.
\<close>

theorem lookup_asn_limit:
  assumes "0 < k"
  shows "length (lookup_asn index asn k) \<le> nat k
       \<and> prefix (lookup_asn index asn k) (lookup_asn index asn 0)
       \<and> lookup_asn index asn 0 = filter (\<lambda>r. ASN r = asn) index"
  using assms by (simp add: lookup_asn_def take_is_prefix)

theorem lookup_asn_limit_witness:
  "(0::int) < 1
   \<and> length (lookup_asn
        [\<lparr>ASN = [55], owner = [], country = [], ip_range = (1, 2)\<rparr>,
         \<lparr>ASN = [56], owner = [], country = [], ip_range = (3, 4)\<rparr>,
         \<lparr>ASN = [55], owner = [], country = [], ip_range = (5, 6)\<rparr>] [55] 1) \<le> nat 1
   \<and> lookup_asn
        [\<lparr>ASN = [55], owner = [], country = [], ip_range = (1, 2)\<rparr>,
         \<lparr>ASN = [56], owner = [], country = [], ip_range = (3, 4)\<rparr>,
         \<lparr>ASN = [55], owner = [], country = [], ip_range = (5, 6)\<rparr>] [55] 1
       = [\<lparr>ASN = [55], owner = [], country = [], ip_range = (1, 2)\<rparr>]
   \<and> lookup_asn
        [\<lparr>ASN = [55], owner = [], country = [], ip_range = (1, 2)\<rparr>,
         \<lparr>ASN = [56], owner = [], country = [], ip_range = (3, 4)\<rparr>,
         \<lparr>ASN = [55], owner = [], country = [], ip_range = (5, 6)\<rparr>] [55] 0
       = [\<lparr>ASN = [55], owner = [], country = [], ip_range = (1, 2)\<rparr>,
          \<lparr>ASN = [55], owner = [], country = [], ip_range = (5, 6)\<rparr>]"
proof -
  have h: "(0::int) < 1" by simp
  show ?thesis
    using h lookup_asn_limit [OF h, of
        "[\<lparr>ASN = [55], owner = [], country = [], ip_range = (1, 2)\<rparr>,
          \<lparr>ASN = [56], owner = [], country = [], ip_range = (3, 4)\<rparr>,
          \<lparr>ASN = [55], owner = [], country = [], ip_range = (5, 6)\<rparr>]" "[55]"]
    by (simp add: lookup_asn_def)
qed

section \<open>The mapping loop\<close>

lemma for_rows_map_row:
  "for_rows map_row m (rows, e) =
     (if \<exists>row\<in>set rows. length row < 2 then Inl IndexError
      else (case e of
              None \<Rightarrow> Inr (m ++ map_of (rev (map (\<lambda>row. (row ! 1, row ! 0)) rows)))
            | Some err \<Rightarrow> Inl err))"
proof (induction rows arbitrary: m)
  case Nil
  then show ?case by (cases e) simp_all
next
  case (Cons row rows)
  show ?case
  proof (cases "length row < 2")
    case True
    then show ?thesis by (simp add: map_row_def)
  next
    case False
    have eq: "m(row ! 1 \<mapsto> row ! 0) ++ map_of (rev (map (\<lambda>row. (row ! 1, row ! 0)) rows))
        = m ++ map_of (rev (map (\<lambda>row. (row ! 1, row ! 0)) (row # rows)))"
      by (auto simp: fun_eq_iff map_add_def split: option.splits)
    have step: "for_rows map_row m (row # rows, e) = for_rows map_row (m(row ! 1 \<mapsto> row ! 0)) (rows, e)"
      using False by (simp add: map_row_def)
    show ?thesis
      unfolding step Cons.IH[of "m(row ! 1 \<mapsto> row ! 0)"] eq using False by simp
  qed
qed

lemma parse_map_list_eq:
  "parse_map_list mt =
     (if \<exists>row\<in>set (records mt). length row < 2 then Inl IndexError
      else (case reader_error mt of
              None \<Rightarrow> Inr (map_of (rev (map (\<lambda>row. (row ! 1, row ! 0)) (records mt))))
            | Some err \<Rightarrow> Inl err))"
  by (simp add: parse_map_list_def csv_reader_split(1) for_rows_map_row split: option.splits)

lemma map_of_last_wins:
  assumes "\<forall>r\<in>set post. f r \<noteq> k"
  shows "map_of (rev (map (\<lambda>r. (f r, g r)) (pre @ row # post))) (f row) =
         (if f row = k then Some (g row) else map_of (rev (map (\<lambda>r. (f r, g r)) (pre @ row # post))) (f row))"
proof (cases "f row = k")
  case False
  then show ?thesis by simp
next
  case True
  have "map_of (rev (map (\<lambda>r. (f r, g r)) post)) k = None"
    using assms by (auto simp: map_of_eq_None_iff image_iff)
  with True show ?thesis by (simp add: map_add_def)
qed

lemmas reader_eval = records_def reader_error_def csv_reader_def str_split_def ascii_def
  isspace_def parse_reset_def parse_process_char_def start_field_def is_crlf_def
  parse_add_char_def add_char_then_def field_limit_def parse_save_field_def end_of_line_def

lemma not_isspace_a: "\<not> isspace 97"
  by (simp add: isspace_def)

lemma oversize_then_short:
  assumes "field_limit < n"
  shows "str_split (replicate n 97 @ ascii '',x m1'') = [replicate n 97 @ ascii '',x'', ascii ''m1'']"
    and "parse_map_list (replicate n 97 @ ascii '',x m1'') = Inl csv_Error"
proof -
  show s: "str_split (replicate n 97 @ ascii '',x m1'') = [replicate n 97 @ ascii '',x'', ascii ''m1'']"
    by (simp add: str_split_replicate[OF not_isspace_a] ascii_def isspace_def)
  show "parse_map_list (replicate n 97 @ ascii '',x m1'') = Inl csv_Error"
    unfolding parse_map_list_def s oversize_first[OF assms] by simp
qed

lemma oversize_record:
  assumes "field_limit < n"
  shows "str_split (replicate n 97 @ ascii '',m1'') = [replicate n 97 @ ascii '',m1'']"
    and "csv_reader (str_split (replicate n 97 @ ascii '',m1'')) = ([], Some csv_Error)"
proof -
  show s: "str_split (replicate n 97 @ ascii '',m1'') = [replicate n 97 @ ascii '',m1'']"
    by (simp add: str_split_replicate[OF not_isspace_a] ascii_def isspace_def)
  show "csv_reader (str_split (replicate n 97 @ ascii '',m1'')) = ([], Some csv_Error)"
    unfolding s by (rule oversize_first[OF assms])
qed

text \<open>
  C6, as the claim states it, fails. In the mapping text of 131073 letters \<open>a\<close> followed by
  \<open>,x m1\<close>, the second record \<open>m1\<close> has one field (read on its own it is the row \<open>[m1]\<close>),
  but the first field exceeds the csv field size limit: the reader raises \<open>csv.Error\<close>
  before the short record is read, and that, not \<open>IndexError\<close>, is how the parse fails.
\<close>

theorem short_record_unread_counterexample:
  "str_split (replicate 131073 97 @ ascii '',x m1'')
     = [replicate 131073 97 @ ascii '',x'', ascii ''m1'']
   \<and> csv_reader [ascii ''m1''] = ([[ascii ''m1'']], None)
   \<and> parse_map_list (replicate 131073 97 @ ascii '',x m1'') = Inl csv_Error"
proof -
  have l: "field_limit < 131073" by (simp add: field_limit_def)
  have c: "csv_reader [ascii ''m1''] = ([[ascii ''m1'']], None)"
    by (simp add: reader_eval)
  from oversize_then_short[OF l] c show ?thesis by blast
qed

text \<open>
  C6, amended. For every mapping text, the mapping parse fails with \<open>IndexError\<close> (the
  spec's \<open>MalformedRowError\<close>) if some record that the csv reader yields has fewer than 2
  fields, and with it the whole \<open>parse_blag_contents\<close>, whatever the entries text. (The
  records of a text are those read before a field longer than the csv field size limit
  ends the reading with \<open>csv.Error\<close>.)
\<close>

theorem parse_map_list_short_row:
  assumes "\<exists>row\<in>set (records mapping). length row < 2"
  shows "parse_map_list mapping = Inl IndexError
       \<and> parse_blag_contents entries mapping = Inl IndexError"
  using assms by (simp add: parse_blag_contents_def parse_map_list_eq)

text \<open>
  The spec's example: the mapping text \<open>ACME-ISP,3.3.4.4,US,1.2.3.4-1.2.3.10\nm1\<close>, whose
  second record is the single field \<open>m1\<close>.
\<close>

theorem parse_map_list_short_row_witness:
  "records (ascii ''ACME-ISP,3.3.4.4,US,1.2.3.4-1.2.3.10'' @ [10] @ ascii ''m1'')
     = [[ascii ''ACME-ISP'', ascii ''3.3.4.4'', ascii ''US'', ascii ''1.2.3.4-1.2.3.10''],
        [ascii ''m1'']]
   \<and> parse_map_list (ascii ''ACME-ISP,3.3.4.4,US,1.2.3.4-1.2.3.10'' @ [10] @ ascii ''m1'')
     = Inl IndexError
   \<and> parse_blag_contents (ascii ''10.0.0.5,m1'')
       (ascii ''ACME-ISP,3.3.4.4,US,1.2.3.4-1.2.3.10'' @ [10] @ ascii ''m1'')
     = Inl IndexError"
proof -
  have r: "records (ascii ''ACME-ISP,3.3.4.4,US,1.2.3.4-1.2.3.10'' @ [10] @ ascii ''m1'')
     = [[ascii ''ACME-ISP'', ascii ''3.3.4.4'', ascii ''US'', ascii ''1.2.3.4-1.2.3.10''],
        [ascii ''m1'']]"
    by (simp add: reader_eval)
  have h: "\<exists>row\<in>set (records (ascii ''ACME-ISP,3.3.4.4,US,1.2.3.4-1.2.3.10'' @ [10] @ ascii ''m1'')).
             length row < 2"
    unfolding r by (simp add: ascii_def)
  show ?thesis
    using r parse_map_list_short_row [OF h, of "ascii ''10.0.0.5,m1''"] by simp
qed

text \<open>
  C8, as the claim states it, fails. The mapping text of 131073 letters \<open>a\<close> followed by
  \<open>,m1\<close> is one record of two comma-separated fields, so no record of it has fewer than
  2 fields; but its first field exceeds the csv field size limit, the reader raises
  \<open>csv.Error\<close> without yielding a record, and no table is built.
\<close>

theorem oversize_field_mapping_counterexample:
  "str_split (replicate 131073 97 @ ascii '',m1'') = [replicate 131073 97 @ ascii '',m1'']
   \<and> records (replicate 131073 97 @ ascii '',m1'') = []
   \<and> parse_map_list (replicate 131073 97 @ ascii '',m1'') = Inl csv_Error"
proof -
  have l: "field_limit < 131073" by (simp add: field_limit_def)
  note o = oversize_record[OF l]
  have r: "records (replicate 131073 97 @ ascii '',m1'') = []"
    unfolding records_def o(2) by simp
  have p: "parse_map_list (replicate 131073 97 @ ascii '',m1'') = Inl csv_Error"
    unfolding parse_map_list_def o(2) by simp
  from o(1) r p show ?thesis by blast
qed

text \<open>
  C8, amended. For every mapping text that the csv reader accepts (it raises no error: no
  field is longer than the csv field size limit of 131072 characters) and whose records
  all have at least 2 fields, the mapping parse succeeds and its table takes field 1 of
  each record as the key and field 0 as the value; a code carried by several records keeps
  the value of its last record, and no error is raised for the repetition.
\<close>

theorem parse_map_list_table:
  assumes "reader_error mapping = None" "\<forall>row\<in>set (records mapping). 2 \<le> length row"
  shows "\<exists>blag_map. parse_map_list mapping = Inr blag_map
       \<and> blag_map = map_of (rev (map (\<lambda>row. (row ! 1, row ! 0)) (records mapping)))
       \<and> (\<forall>pre row post. records mapping = pre @ row # post \<and> (\<forall>r\<in>set post. r ! 1 \<noteq> row ! 1)
            \<longrightarrow> blag_map (row ! 1) = Some (row ! 0))"
proof -
  have no: "\<not> (\<exists>row\<in>set (records mapping). length row < 2)"
    using assms(2) by (auto simp: not_less)
  have p: "parse_map_list mapping = Inr (map_of (rev (map (\<lambda>row. (row ! 1, row ! 0)) (records mapping))))"
    using no assms(1) by (simp add: parse_map_list_eq)
  have l: "map_of (rev (map (\<lambda>row. (row ! 1, row ! 0)) (records mapping))) (row ! 1) = Some (row ! 0)"
    if "records mapping = pre @ row # post" "\<forall>r\<in>set post. r ! 1 \<noteq> row ! 1" for pre row post
    using map_of_last_wins[of post "\<lambda>r. r ! 1" "row ! 1" "\<lambda>r. r ! 0" pre row] that by simp
  from p l show ?thesis by blast
qed

text \<open>Three records, the code \<open>m1\<close> twice: the later descriptor is the one kept.\<close>

theorem parse_map_list_table_witness:
  "records (ascii ''ASN:111,m1'' @ [10] @ ascii ''ASN:222,m2'' @ [10] @ ascii ''ASN:333,m1'')
     = [[ascii ''ASN:111'', ascii ''m1''], [ascii ''ASN:222'', ascii ''m2''],
        [ascii ''ASN:333'', ascii ''m1'']]
   \<and> reader_error (ascii ''ASN:111,m1'' @ [10] @ ascii ''ASN:222,m2'' @ [10] @ ascii ''ASN:333,m1'')
     = None
   \<and> (case parse_map_list
         (ascii ''ASN:111,m1'' @ [10] @ ascii ''ASN:222,m2'' @ [10] @ ascii ''ASN:333,m1'') of
        Inl e \<Rightarrow> False
      | Inr blag_map \<Rightarrow>
          blag_map (ascii ''m1'') = Some (ascii ''ASN:333'')
        \<and> blag_map (ascii ''m2'') = Some (ascii ''ASN:222'')
        \<and> blag_map (ascii ''m3'') = None)"
proof -
  have r: "records (ascii ''ASN:111,m1'' @ [10] @ ascii ''ASN:222,m2'' @ [10] @ ascii ''ASN:333,m1'')
     = [[ascii ''ASN:111'', ascii ''m1''], [ascii ''ASN:222'', ascii ''m2''],
        [ascii ''ASN:333'', ascii ''m1'']]"
    by (simp add: reader_eval)
  have e: "reader_error (ascii ''ASN:111,m1'' @ [10] @ ascii ''ASN:222,m2'' @ [10] @ ascii ''ASN:333,m1'')
     = None"
    by (simp add: reader_eval)
  have h: "\<forall>row\<in>set (records
      (ascii ''ASN:111,m1'' @ [10] @ ascii ''ASN:222,m2'' @ [10] @ ascii ''ASN:333,m1'')).
        2 \<le> length row"
    unfolding r by simp
  show ?thesis
    using parse_map_list_table [OF e h] e unfolding r by (auto simp: ascii_def)
qed

section \<open>The entries loop\<close>

lemma lookup_codes_ok:
  "\<forall>x\<in>set xs. bm x \<noteq> None \<Longrightarrow> lookup_codes bm xs = Inr (map (\<lambda>x. the (bm x)) xs)"
  by (induction xs) auto

lemma lookup_codes_err:
  "\<exists>x\<in>set xs. bm x = None \<Longrightarrow> \<exists>c\<in>set xs. bm c = None \<and> lookup_codes bm xs = Inl (KeyError c)"
proof (induction xs)
  case Nil
  then show ?case by simp
next
  case (Cons x xs)
  show ?case
  proof (cases "bm x")
    case None
    then show ?thesis by auto
  next
    case (Some d)
    with Cons.prems have "\<exists>x\<in>set xs. bm x = None" by auto
    from Cons.IH[OF this] obtain c where "c \<in> set xs" "bm c = None" "lookup_codes bm xs = Inl (KeyError c)"
      by blast
    with Some show ?thesis by auto
  qed
qed

lemma for_rows_blag_ok:
  assumes "\<forall>row\<in>set rows. row \<noteq> [] \<and> (\<forall>x\<in>set (tl row). bm x \<noteq> None)"
  shows "for_rows (blag_row bm) idx (rows, e) =
     (case e of
        None \<Rightarrow> Inr (idx ++ map_of (rev (map (\<lambda>row. (hd row, map (\<lambda>x. the (bm x)) (tl row))) rows)))
      | Some err \<Rightarrow> Inl err)"
  using assms
proof (induction rows arbitrary: idx)
  case Nil
  then show ?case by (cases e) simp_all
next
  case (Cons row rows)
  from Cons.prems obtain ip codes where row: "row = ip # codes" by (cases row) auto
  with Cons.prems have codes: "\<forall>x\<in>set codes. bm x \<noteq> None" by simp
  have step: "blag_row bm idx row = Inr (idx(ip \<mapsto> map (\<lambda>x. the (bm x)) codes))"
    by (simp add: blag_row_def row lookup_codes_ok[OF codes])
  have eq: "idx(ip \<mapsto> map (\<lambda>x. the (bm x)) codes) ++ map_of (rev (map (\<lambda>row. (hd row, map (\<lambda>x. the (bm x)) (tl row))) rows))
        = idx ++ map_of (rev (map (\<lambda>row. (hd row, map (\<lambda>x. the (bm x)) (tl row))) (row # rows)))"
    by (auto simp: row fun_eq_iff map_add_def split: option.splits)
  have rest: "\<forall>row\<in>set rows. row \<noteq> [] \<and> (\<forall>x\<in>set (tl row). bm x \<noteq> None)"
    using Cons.prems by simp
  have s: "for_rows (blag_row bm) idx (row # rows, e)
      = for_rows (blag_row bm) (idx(ip \<mapsto> map (\<lambda>x. the (bm x)) codes)) (rows, e)"
    using step by simp
  show ?case
    unfolding s Cons.IH[OF rest, of "idx(ip \<mapsto> map (\<lambda>x. the (bm x)) codes)"] eq ..
qed

lemma for_rows_blag_err:
  assumes "\<forall>row\<in>set rows. row \<noteq> []" "\<exists>row\<in>set rows. \<exists>x\<in>set (tl row). bm x = None"
  shows "\<exists>c. bm c = None \<and> (\<exists>row\<in>set rows. c \<in> set (tl row)) \<and>
     for_rows (blag_row bm) idx (rows, e) = Inl (KeyError c)"
  using assms
proof (induction rows arbitrary: idx)
  case Nil
  then show ?case by simp
next
  case (Cons row rows)
  from Cons.prems obtain ip codes where row: "row = ip # codes" by (cases row) auto
  show ?case
  proof (cases "\<exists>x\<in>set codes. bm x = None")
    case True
    from lookup_codes_err[OF True] obtain c where "c \<in> set codes" "bm c = None"
      "lookup_codes bm codes = Inl (KeyError c)" by blast
    then show ?thesis by (auto simp: blag_row_def row intro!: exI[of _ c])
  next
    case False
    then have codes: "\<forall>x\<in>set codes. bm x \<noteq> None" by simp
    have step: "blag_row bm idx row = Inr (idx(ip \<mapsto> map (\<lambda>x. the (bm x)) codes))"
      by (simp add: blag_row_def row lookup_codes_ok[OF codes])
    from Cons.prems False row have r1: "\<forall>row\<in>set rows. row \<noteq> []"
      and r2: "\<exists>row\<in>set rows. \<exists>x\<in>set (tl row). bm x = None" by auto
    from Cons.IH[OF r1 r2, of "idx(ip \<mapsto> map (\<lambda>x. the (bm x)) codes)"] obtain c where
      "bm c = None" "\<exists>row\<in>set rows. c \<in> set (tl row)"
      "for_rows (blag_row bm) (idx(ip \<mapsto> map (\<lambda>x. the (bm x)) codes)) (rows, e) = Inl (KeyError c)"
      by blast
    with step show ?thesis by (auto intro!: exI[of _ c])
  qed
qed

lemma parse_blag_list_ok:
  assumes "\<forall>row\<in>set (records bl). \<forall>x\<in>set (tl row). bm x \<noteq> None"
  shows "parse_blag_list bm bl =
     (case reader_error bl of
        None \<Rightarrow> Inr (map_of (rev (map (\<lambda>row. (hd row, map (\<lambda>x. the (bm x)) (tl row))) (records bl))))
      | Some err \<Rightarrow> Inl err)"
proof -
  have "\<forall>row\<in>set (records bl). row \<noteq> [] \<and> (\<forall>x\<in>set (tl row). bm x \<noteq> None)"
    using assms csv_reader_split(2)[of _ bl] by blast
  from for_rows_blag_ok[OF this, of Map.empty "reader_error bl"] show ?thesis
    by (simp add: parse_blag_list_def csv_reader_split(1) split: option.splits)
qed

lemma parse_blag_list_err:
  assumes "\<exists>row\<in>set (records bl). \<exists>x\<in>set (tl row). bm x = None"
  shows "\<exists>c. bm c = None \<and> (\<exists>row\<in>set (records bl). c \<in> set (tl row)) \<and>
     parse_blag_list bm bl = Inl (KeyError c)"
proof -
  have "\<forall>row\<in>set (records bl). row \<noteq> []"
    using csv_reader_split(2)[of _ bl] by blast
  from for_rows_blag_err[OF this assms, of Map.empty "reader_error bl"] show ?thesis
    by (simp add: parse_blag_list_def csv_reader_split(1))
qed

lemmas parse_eval = parse_blag_contents_def parse_map_list_def parse_blag_list_def map_row_def
  blag_row_def

text \<open>
  C5, as the claim states it, fails. With a table that knows \<open>m1\<close>, the entries text of
  131073 letters \<open>a\<close> followed by \<open>,m1\<close> is one record whose only code, \<open>m1\<close>, resolves;
  but its address field exceeds the csv field size limit, the reader raises \<open>csv.Error\<close>,
  and the parse does not succeed.
\<close>

theorem oversize_field_entries_counterexample:
  "str_split (replicate 131073 97 @ ascii '',m1'') = [replicate 131073 97 @ ascii '',m1'']
   \<and> [ascii ''m1'' \<mapsto> ascii ''OwnerX''] (ascii ''m1'') = Some (ascii ''OwnerX'')
   \<and> parse_blag_list [ascii ''m1'' \<mapsto> ascii ''OwnerX''] (replicate 131073 97 @ ascii '',m1'')
       = Inl csv_Error"
proof -
  have l: "field_limit < 131073" by (simp add: field_limit_def)
  note o = oversize_record[OF l]
  have p: "parse_blag_list [ascii ''m1'' \<mapsto> ascii ''OwnerX''] (replicate 131073 97 @ ascii '',m1'')
       = Inl csv_Error"
    unfolding parse_blag_list_def o(2) by simp
  have t: "[ascii ''m1'' \<mapsto> ascii ''OwnerX''] (ascii ''m1'') = Some (ascii ''OwnerX'')"
    by simp
  from o(1) t p show ?thesis by blast
qed

text \<open>
  C5, amended. For every entries text and mapping table: when some record that the csv
  reader yields references a code that is not a key of the table, the entry parse fails
  with \<open>KeyError\<close> (the spec's \<open>UnresolvedCodeError\<close>) for such a code and returns no
  mapping; when every code of every record is a key of the table, the parse succeeds if
  the reader accepts the text (no field is longer than the csv field size limit of 131072
  characters), and otherwise fails with the reader's \<open>csv.Error\<close>.
\<close>

theorem parse_blag_list_unresolved_code:
  "((\<exists>row\<in>set (records entries). \<exists>x\<in>set (tl row). blag_map x = None) \<longrightarrow>
      (\<exists>c. parse_blag_list blag_map entries = Inl (KeyError c) \<and> blag_map c = None
         \<and> (\<exists>row\<in>set (records entries). c \<in> set (tl row))))
   \<and> ((\<forall>row\<in>set (records entries). \<forall>x\<in>set (tl row). blag_map x \<noteq> None) \<longrightarrow>
      (if reader_error entries = None then \<exists>idx. parse_blag_list blag_map entries = Inr idx
       else parse_blag_list blag_map entries = Inl csv_Error))"
proof -
  have a: "\<exists>c. parse_blag_list blag_map entries = Inl (KeyError c) \<and> blag_map c = None
         \<and> (\<exists>row\<in>set (records entries). c \<in> set (tl row))"
    if "\<exists>row\<in>set (records entries). \<exists>x\<in>set (tl row). blag_map x = None"
    using parse_blag_list_err[OF that] by blast
  have b: "if reader_error entries = None then \<exists>idx. parse_blag_list blag_map entries = Inr idx
       else parse_blag_list blag_map entries = Inl csv_Error"
    if "\<forall>row\<in>set (records entries). \<forall>x\<in>set (tl row). blag_map x \<noteq> None"
    using parse_blag_list_ok[OF that] csv_reader_split(3)[of entries]
    by (auto split: option.splits)
  from a b show ?thesis by blast
qed

text \<open>
  A table that knows \<open>m1\<close> only: the entries \<open>10.0.0.5,m1\<close> parse, and adding the record
  \<open>10.0.0.7,m9\<close> fails the parse on \<open>m9\<close>.
\<close>

theorem parse_blag_list_unresolved_code_witness:
  "parse_blag_list [ascii ''m1'' \<mapsto> ascii ''OwnerX'']
       (ascii ''10.0.0.5,m1'' @ [10] @ ascii ''10.0.0.7,m9'') = Inl (KeyError (ascii ''m9''))
   \<and> reader_error (ascii ''10.0.0.5,m1'') = None
   \<and> (\<exists>idx. parse_blag_list [ascii ''m1'' \<mapsto> ascii ''OwnerX''] (ascii ''10.0.0.5,m1'') = Inr idx)"
proof -
  have r1: "records (ascii ''10.0.0.5,m1'' @ [10] @ ascii ''10.0.0.7,m9'')
      = [[ascii ''10.0.0.5'', ascii ''m1''], [ascii ''10.0.0.7'', ascii ''m9'']]"
    by (simp add: reader_eval)
  have r2: "records (ascii ''10.0.0.5,m1'') = [[ascii ''10.0.0.5'', ascii ''m1'']]"
    by (simp add: reader_eval)
  have e2: "reader_error (ascii ''10.0.0.5,m1'') = None"
    by (simp add: reader_eval)
  have h1: "\<exists>row\<in>set (records (ascii ''10.0.0.5,m1'' @ [10] @ ascii ''10.0.0.7,m9'')).
      \<exists>x\<in>set (tl row). [ascii ''m1'' \<mapsto> ascii ''OwnerX''] x = None"
    unfolding r1 by (simp add: ascii_def)
  have h2: "\<forall>row\<in>set (records (ascii ''10.0.0.5,m1'')).
      \<forall>x\<in>set (tl row). [ascii ''m1'' \<mapsto> ascii ''OwnerX''] x \<noteq> None"
    unfolding r2 by simp
  from h1 parse_blag_list_unresolved_code
    [of "ascii ''10.0.0.5,m1'' @ [10] @ ascii ''10.0.0.7,m9''" "[ascii ''m1'' \<mapsto> ascii ''OwnerX'']"]
  obtain c where c: "parse_blag_list [ascii ''m1'' \<mapsto> ascii ''OwnerX'']
       (ascii ''10.0.0.5,m1'' @ [10] @ ascii ''10.0.0.7,m9'') = Inl (KeyError c)"
      "[ascii ''m1'' \<mapsto> ascii ''OwnerX''] c = None"
      "\<exists>row\<in>set (records (ascii ''10.0.0.5,m1'' @ [10] @ ascii ''10.0.0.7,m9'')). c \<in> set (tl row)"
    by blast
  from c(2,3) have "c = ascii ''m9''"
    unfolding r1 by (auto split: if_splits)
  with c(1) have a: "parse_blag_list [ascii ''m1'' \<mapsto> ascii ''OwnerX'']
       (ascii ''10.0.0.5,m1'' @ [10] @ ascii ''10.0.0.7,m9'') = Inl (KeyError (ascii ''m9''))"
    by simp
  from parse_blag_list_unresolved_code
    [of "ascii ''10.0.0.5,m1''" "[ascii ''m1'' \<mapsto> ascii ''OwnerX'']", THEN conjunct2, THEN mp, OF h2]
  have b: "\<exists>idx. parse_blag_list [ascii ''m1'' \<mapsto> ascii ''OwnerX''] (ascii ''10.0.0.5,m1'') = Inr idx"
    unfolding e2 by simp
  from a e2 b show ?thesis by blast
qed

text \<open>
  C9, as the claim states it, fails: the entries text \<open>10.0.0.5\<close> is one record consisting
  of only an address, and the parse succeeds, mapping the address to no descriptors.
\<close>

theorem address_only_record_counterexample:
  "records (ascii ''10.0.0.5'') = [[ascii ''10.0.0.5'']]
   \<and> parse_blag_list Map.empty (ascii ''10.0.0.5'') \<noteq> Inl IndexError
   \<and> (case parse_blag_list Map.empty (ascii ''10.0.0.5'') of
        Inl e \<Rightarrow> False
      | Inr idx \<Rightarrow> idx (ascii ''10.0.0.5'') = Some [])"
  by (simp add: reader_eval parse_blag_list_def blag_row_def)

text \<open>
  C9, amended. For every entries text and table the entry parse never fails with
  \<open>IndexError\<close>: every record has its address field, and a record consisting of only an
  address is accepted. When the parse succeeds, such a record maps its address to the
  empty descriptor sequence (unless a later record carries the same address).
\<close>

theorem parse_blag_list_address_only:
  "parse_blag_list blag_map entries \<noteq> Inl IndexError
   \<and> (\<forall>pre ip post idx.
         records entries = pre @ [ip] # post \<and> (\<forall>r\<in>set post. hd r \<noteq> ip)
           \<and> parse_blag_list blag_map entries = Inr idx
         \<longrightarrow> idx ip = Some [])"
proof (cases "\<forall>row\<in>set (records entries). \<forall>x\<in>set (tl row). blag_map x \<noteq> None")
  case True
  note ok = parse_blag_list_ok[OF True]
  have ne: "parse_blag_list blag_map entries \<noteq> Inl IndexError"
    using ok csv_reader_split(3)[of entries] by (auto split: option.splits)
  have "idx ip = Some []"
    if "records entries = pre @ [ip] # post" "\<forall>r\<in>set post. hd r \<noteq> ip"
       "parse_blag_list blag_map entries = Inr idx" for pre ip post idx
  proof -
    from that(3) ok have "idx = map_of (rev (map (\<lambda>row. (hd row, map (\<lambda>x. the (blag_map x)) (tl row)))
        (pre @ [ip] # post)))"
      by (simp add: that(1) split: option.splits)
    then show ?thesis
      using map_of_last_wins[of post hd ip "\<lambda>row. map (\<lambda>x. the (blag_map x)) (tl row)" pre "[ip]"] that(2)
      by simp
  qed
  with ne show ?thesis by blast
next
  case False
  then have "\<exists>row\<in>set (records entries). \<exists>x\<in>set (tl row). blag_map x = None" by simp
  from parse_blag_list_err[OF this] show ?thesis by auto
qed

theorem parse_blag_list_address_only_witness:
  "records (ascii ''10.0.0.5'' @ [10] @ ascii ''10.0.0.7,m1'')
      = [[ascii ''10.0.0.5''], [ascii ''10.0.0.7'', ascii ''m1'']]
   \<and> (case parse_blag_list [ascii ''m1'' \<mapsto> ascii ''OwnerX'']
            (ascii ''10.0.0.5'' @ [10] @ ascii ''10.0.0.7,m1'') of
        Inl e \<Rightarrow> False
      | Inr idx \<Rightarrow> idx (ascii ''10.0.0.5'') = Some [])"
proof -
  have r: "records (ascii ''10.0.0.5'' @ [10] @ ascii ''10.0.0.7,m1'')
      = [] @ [ascii ''10.0.0.5''] # [[ascii ''10.0.0.7'', ascii ''m1'']]"
    by (simp add: reader_eval)
  have p: "\<forall>r\<in>set [[ascii ''10.0.0.7'', ascii ''m1'']]. hd r \<noteq> ascii ''10.0.0.5''"
    by (simp add: ascii_def)
  obtain idx where idx: "parse_blag_list [ascii ''m1'' \<mapsto> ascii ''OwnerX'']
            (ascii ''10.0.0.5'' @ [10] @ ascii ''10.0.0.7,m1'') = Inr idx"
    by (simp add: reader_eval parse_blag_list_def blag_row_def)
  from parse_blag_list_address_only
    [of "[ascii ''m1'' \<mapsto> ascii ''OwnerX'']" "ascii ''10.0.0.5'' @ [10] @ ascii ''10.0.0.7,m1''"]
    r p idx
  have "idx (ascii ''10.0.0.5'') = Some []" by blast
  with r idx show ?thesis by simp
qed

section \<open>The method against the function\<close>

lemma BlagBL_map_row_eq: "BlagBL_map_row = map_row"
  by (simp add: fun_eq_iff BlagBL_map_row_def map_row_def)

lemma BlagBL_parse_map_list_eq: "BlagBL_parse_map_list m = parse_map_list m"
  by (simp add: BlagBL_parse_map_list_def parse_map_list_def BlagBL_map_row_eq)

lemma for_rows_defaultdict:
  "for_rows (BlagBL_blag_row bm) (Defaultdict d) (rows, e) =
     map_sum id Defaultdict (for_rows (blag_row bm) d (rows, e))"
proof (induction rows arbitrary: d)
  case Nil
  then show ?case by (cases e) simp_all
next
  case (Cons row rows)
  show ?case
  proof (cases "blag_row bm d row")
    case (Inl err)
    then have "BlagBL_blag_row bm (Defaultdict d) row = Inl err"
      by (auto simp: blag_row_def BlagBL_blag_row_def split: list.splits sum.splits)
    with Inl show ?thesis by simp
  next
    case (Inr d')
    then have "BlagBL_blag_row bm (Defaultdict d) row = Inr (Defaultdict d')"
      by (auto simp: blag_row_def BlagBL_blag_row_def defaultdict_setitem_def split: list.splits sum.splits)
    with Inr Cons.IH[of d'] show ?thesis by simp
  qed
qed

lemma BlagBL_parse_blag_list_eq:
  "BlagBL_parse_blag_list bm b = map_sum id Defaultdict (parse_blag_list bm b)"
  by (cases "csv_reader (str_split b)")
    (simp add: BlagBL_parse_blag_list_def parse_blag_list_def for_rows_defaultdict)

lemma parse_texts:
  "(case BlagBL_parse_map_list m of
      Inl e \<Rightarrow> Inl e
    | Inr blag_map \<Rightarrow> BlagBL_parse_blag_list blag_map b)
   = map_sum id Defaultdict (parse_blag_contents b m)"
  by (simp add: BlagBL_parse_map_list_eq BlagBL_parse_blag_list_eq parse_blag_contents_def
      split: sum.splits)

lemma extract_texts:
  assumes "extract_blag_files self = (Inr (b, m), self')"
  shows "blag_list self' = Some b \<and> map_list self' = Some m"
  using assms
  by (auto simp: extract_blag_files_def Let_def split: if_splits sum.splits)

lemma method_texts:
  assumes "BlagBL_parse_blag_contents self = (Inr d, self')"
  shows "\<exists>b m. blag_list self' = Some b \<and> map_list self' = Some m
           \<and> parse_blag_contents b m = Inr (dict_of d) \<and> ips self' = Some d"
proof -
  obtain r s1 where st: "(if falsy (blag_list self) \<or> falsy (map_list self)
            then extract_blag_files self
            else (Inr (the (blag_list self), the (map_list self)), self)) = (r, s1)"
    by (cases "(if falsy (blag_list self) \<or> falsy (map_list self)
            then extract_blag_files self
            else (Inr (the (blag_list self), the (map_list self)), self))") auto
  from assms st obtain b m where r: "r = Inr (b, m)"
    by (cases r) (auto simp: BlagBL_parse_blag_contents_def)
  have texts: "blag_list s1 = Some b \<and> map_list s1 = Some m"
  proof (cases "falsy (blag_list self) \<or> falsy (map_list self)")
    case True
    with st r have "extract_blag_files self = (Inr (b, m), s1)" by simp
    from extract_texts[OF this] show ?thesis .
  next
    case False
    with st r show ?thesis by (auto simp: falsy_def)
  qed
  from assms st r obtain bm where bm: "BlagBL_parse_map_list m = Inr bm"
    and d: "BlagBL_parse_blag_list bm b = Inr d" and s': "self' = s1\<lparr>ips := Some d\<rparr>"
    by (auto simp: BlagBL_parse_blag_contents_def split: sum.splits)
  from bm d parse_texts[where m=m and b=b] have "map_sum id Defaultdict (parse_blag_contents b m) = Inr d"
    by simp
  then have "parse_blag_contents b m = Inr (dict_of d)"
    by (cases "parse_blag_contents b m") auto
  with texts s' show ?thesis by simp
qed

lemma method_direct:
  assumes "blag_list self = Some b" "map_list self = Some m" "b \<noteq> []" "m \<noteq> []"
  shows "fst (BlagBL_parse_blag_contents self) = map_sum id Defaultdict (parse_blag_contents b m)"
proof -
  have nf: "\<not> (falsy (blag_list self) \<or> falsy (map_list self))"
    using assms by (simp add: falsy_def)
  show ?thesis
    using parse_texts[where m=m and b=b] nf assms(1,2)
    by (auto simp: BlagBL_parse_blag_contents_def split: sum.splits)
qed

lemma parse_blag_contents_Inr:
  assumes "parse_blag_contents b m = Inr idx"
  shows "\<exists>bm. parse_map_list m = Inr bm
           \<and> (\<forall>row\<in>set (records b). \<forall>x\<in>set (tl row). bm x \<noteq> None)
           \<and> idx = map_of (rev (map (\<lambda>row. (hd row, map (\<lambda>x. the (bm x)) (tl row))) (records b)))"
proof -
  from assms obtain bm where bm: "parse_map_list m = Inr bm" and p: "parse_blag_list bm b = Inr idx"
    by (auto simp: parse_blag_contents_def split: sum.splits)
  have all: "\<forall>row\<in>set (records b). \<forall>x\<in>set (tl row). bm x \<noteq> None"
  proof (rule ccontr)
    assume "\<not> ?thesis"
    then have "\<exists>row\<in>set (records b). \<exists>x\<in>set (tl row). bm x = None" by simp
    from parse_blag_list_err[OF this] p show False by auto
  qed
  from parse_blag_list_ok[OF all] p bm all show ?thesis by (auto split: option.splits)
qed

lemma map_of_rev_dom:
  "(map_of (rev (map (\<lambda>r. (f r, g r)) rows)) k \<noteq> None) = (k \<in> f ` set rows)"
  by (auto simp: map_of_eq_None_iff image_iff)

lemma index_last_wins:
  assumes "parse_blag_contents b m = Inr idx" "records b = pre @ row # post"
    "\<forall>r\<in>set post. hd r \<noteq> hd row"
  shows "\<exists>bm. parse_map_list m = Inr bm \<and> idx (hd row) = Some (map (\<lambda>x. the (bm x)) (tl row))"
proof -
  from parse_blag_contents_Inr[OF assms(1)] obtain bm where bm: "parse_map_list m = Inr bm"
    and idx: "idx = map_of (rev (map (\<lambda>row. (hd row, map (\<lambda>x. the (bm x)) (tl row))) (records b)))"
    by blast
  have "idx (hd row) = Some (map (\<lambda>x. the (bm x)) (tl row))"
    unfolding idx assms(2)
    using map_of_last_wins[of post hd "hd row" "\<lambda>row. map (\<lambda>x. the (bm x)) (tl row)" pre row] assms(3)
    by simp
  with bm show ?thesis by blast
qed

lemma index_dom:
  assumes "parse_blag_contents b m = Inr idx"
  shows "(idx q \<noteq> None) = (q \<in> hd ` set (records b))"
proof -
  from parse_blag_contents_Inr[OF assms] obtain bm where
    idx: "idx = map_of (rev (map (\<lambda>row. (hd row, map (\<lambda>x. the (bm x)) (tl row))) (records b)))"
    by blast
  show ?thesis unfolding idx by (rule map_of_rev_dom)
qed

text \<open>
  C10. The two entry-parse implementations agree. The method's mapping loop is the
  function's; the method's entries loop returns, on every entries text and table, the
  \<open>defaultdict\<close> whose dict is what the function's loop returns, and raises what it
  raises; whenever the method returns, its result is the function's on the texts the
  object then holds in \<open>blag_list\<close> and \<open>map_list\<close> (on non-empty texts already held, the
  method is the function on them). Both are last-write-wins: an address that several
  records carry maps to the descriptors of its last record, in the dict and in the
  \<open>defaultdict\<close>, which stores a fresh list per record and never appends.
\<close>

theorem BlagBL_parse_blag_contents_agrees:
  "BlagBL_parse_map_list m = parse_map_list m
   \<and> BlagBL_parse_blag_list bm b = map_sum id Defaultdict (parse_blag_list bm b)
   \<and> (\<forall>d self'. BlagBL_parse_blag_contents self = (Inr d, self') \<longrightarrow>
         (\<exists>b' m'. blag_list self' = Some b' \<and> map_list self' = Some m'
            \<and> parse_blag_contents b' m' = Inr (dict_of d)))
   \<and> (blag_list self = Some b \<and> map_list self = Some m \<and> b \<noteq> [] \<and> m \<noteq> [] \<longrightarrow>
         fst (BlagBL_parse_blag_contents self) = map_sum id Defaultdict (parse_blag_contents b m))
   \<and> (\<forall>idx pre row post.
         parse_blag_contents b m = Inr idx \<and> records b = pre @ row # post
           \<and> (\<forall>r\<in>set post. hd r \<noteq> hd row) \<longrightarrow>
         (\<exists>blag_map. parse_map_list m = Inr blag_map
            \<and> idx (hd row) = Some (map (\<lambda>x. the (blag_map x)) (tl row))
            \<and> BlagBL_parse_blag_list blag_map b = Inr (Defaultdict idx)))"
proof (intro conjI)
  show "BlagBL_parse_map_list m = parse_map_list m" by (rule BlagBL_parse_map_list_eq)
  show "BlagBL_parse_blag_list bm b = map_sum id Defaultdict (parse_blag_list bm b)"
    by (rule BlagBL_parse_blag_list_eq)
  show "\<forall>d self'. BlagBL_parse_blag_contents self = (Inr d, self') \<longrightarrow>
         (\<exists>b' m'. blag_list self' = Some b' \<and> map_list self' = Some m'
            \<and> parse_blag_contents b' m' = Inr (dict_of d))"
    using method_texts[of self] by blast
  show "blag_list self = Some b \<and> map_list self = Some m \<and> b \<noteq> [] \<and> m \<noteq> [] \<longrightarrow>
         fst (BlagBL_parse_blag_contents self) = map_sum id Defaultdict (parse_blag_contents b m)"
    using method_direct[of self b m] by blast
  show "\<forall>idx pre row post.
         parse_blag_contents b m = Inr idx \<and> records b = pre @ row # post
           \<and> (\<forall>r\<in>set post. hd r \<noteq> hd row) \<longrightarrow>
         (\<exists>blag_map. parse_map_list m = Inr blag_map
            \<and> idx (hd row) = Some (map (\<lambda>x. the (blag_map x)) (tl row))
            \<and> BlagBL_parse_blag_list blag_map b = Inr (Defaultdict idx))"
  proof (intro allI impI)
    fix idx pre row post
    assume a: "parse_blag_contents b m = Inr idx \<and> records b = pre @ row # post
           \<and> (\<forall>r\<in>set post. hd r \<noteq> hd row)"
    from index_last_wins[of b m idx pre row post] a obtain blag_map where
      bm: "parse_map_list m = Inr blag_map"
      and v: "idx (hd row) = Some (map (\<lambda>x. the (blag_map x)) (tl row))" by blast
    from a bm have "parse_blag_list blag_map b = Inr idx"
      by (simp add: parse_blag_contents_def)
    then have "BlagBL_parse_blag_list blag_map b = Inr (Defaultdict idx)"
      by (simp add: BlagBL_parse_blag_list_eq)
    with bm v show "\<exists>blag_map. parse_map_list m = Inr blag_map
            \<and> idx (hd row) = Some (map (\<lambda>x. the (blag_map x)) (tl row))
            \<and> BlagBL_parse_blag_list blag_map b = Inr (Defaultdict idx)" by blast
  qed
qed

text \<open>
  An object that holds the entries \<open>10.0.0.5,m1\n10.0.0.5,m2\<close> and the mapping
  \<open>A,m1\nB,m2\<close>: the address is listed twice, and both the method and the function map it
  to the descriptor of its last record.
\<close>

theorem BlagBL_parse_blag_contents_agrees_witness:
  "(case fst (BlagBL_parse_blag_contents
        \<lparr>database = [], blag_list = Some (ascii ''10.0.0.5,m1'' @ [10] @ ascii ''10.0.0.5,m2''),
         map_list = Some (ascii ''A,m1'' @ [10] @ ascii ''B,m2''), ips = None\<rparr>) of
      Inl e \<Rightarrow> False
    | Inr d \<Rightarrow> dict_of d (ascii ''10.0.0.5'') = Some [ascii ''B''])
   \<and> (case parse_blag_contents (ascii ''10.0.0.5,m1'' @ [10] @ ascii ''10.0.0.5,m2'')
             (ascii ''A,m1'' @ [10] @ ascii ''B,m2'') of
        Inl e \<Rightarrow> False
      | Inr idx \<Rightarrow> idx (ascii ''10.0.0.5'') = Some [ascii ''B''])"
proof -
  let ?b = "ascii ''10.0.0.5,m1'' @ [10] @ ascii ''10.0.0.5,m2''"
  let ?m = "ascii ''A,m1'' @ [10] @ ascii ''B,m2''"
  let ?self = "\<lparr>database = [], blag_list = Some ?b, map_list = Some ?m, ips = None\<rparr>"
  have "\<exists>idx. parse_blag_contents ?b ?m = Inr idx \<and> idx (ascii ''10.0.0.5'') = Some [ascii ''B'']"
    by (simp add: reader_eval parse_eval)
  then obtain idx where idx: "parse_blag_contents ?b ?m = Inr idx"
    and v: "idx (ascii ''10.0.0.5'') = Some [ascii ''B'']" by blast
  have h: "blag_list ?self = Some ?b \<and> map_list ?self = Some ?m \<and> ?b \<noteq> [] \<and> ?m \<noteq> []"
    by (simp add: ascii_def)
  note th = BlagBL_parse_blag_contents_agrees[where self = ?self and b = ?b and m = ?m]
  from th[THEN conjunct2, THEN conjunct2, THEN conjunct2, THEN conjunct1, rule_format, OF h]
  have "fst (BlagBL_parse_blag_contents ?self) = map_sum id Defaultdict (parse_blag_contents ?b ?m)" .
  with idx v show ?thesis by simp
qed

section \<open>Lookup on the parsed index\<close>

text \<open>
  The lookup of \<open>main.py\<close> is an exact match on the address strings of the dataset. On
  the index that \<open>parse_blag_contents\<close> returns, \<open>lookup_address\<close> (the test \<open>ip in ips\<close>
  with the subscript it guards) returns a descriptor sequence exactly for the query
  strings that are the address field of some record, and then the resolved descriptors of
  the last record with that address; for every other string, whatever number it denotes,
  it returns \<open>None\<close> and raises nothing, and \<open>main\<close> prints no line. The unguarded
  subscript on a \<open>defaultdict\<close> over the same index returns the same descriptors for a
  listed address, but for any other string the empty list, which it stores under the key.
\<close>

lemma main_lookup_exact:
  assumes "parse_blag_contents entries mapping = Inr idx"
  shows "(lookup_address idx q \<noteq> None) = (q \<in> hd ` set (records entries))
   \<and> (q \<notin> hd ` set (records entries) \<longrightarrow>
         lookup_address idx q = None \<and> main_print idx [q] = []
       \<and> defaultdict_getitem (Defaultdict idx) q = ([], Defaultdict (idx(q \<mapsto> []))))
   \<and> (\<forall>pre row post.
         records entries = pre @ row # post \<and> hd row = q \<and> (\<forall>r\<in>set post. hd r \<noteq> q) \<longrightarrow>
         (\<exists>blag_map. parse_map_list mapping = Inr blag_map
            \<and> lookup_address idx q = Some (map (\<lambda>x. the (blag_map x)) (tl row))
            \<and> defaultdict_getitem (Defaultdict idx) q
                = (map (\<lambda>x. the (blag_map x)) (tl row), Defaultdict idx)))"
proof (intro conjI)
  have l: "lookup_address idx q = idx q"
    by (auto simp: lookup_address_def domIff)
  show "(lookup_address idx q \<noteq> None) = (q \<in> hd ` set (records entries))"
    unfolding l by (rule index_dom[OF assms])
  show "q \<notin> hd ` set (records entries) \<longrightarrow>
         lookup_address idx q = None \<and> main_print idx [q] = []
       \<and> defaultdict_getitem (Defaultdict idx) q = ([], Defaultdict (idx(q \<mapsto> [])))"
  proof
    assume "q \<notin> hd ` set (records entries)"
    with index_dom[OF assms, of q] have n: "idx q = None" by simp
    with l show "lookup_address idx q = None \<and> main_print idx [q] = []
       \<and> defaultdict_getitem (Defaultdict idx) q = ([], Defaultdict (idx(q \<mapsto> [])))"
      by (simp add: defaultdict_getitem_def defaultdict_setitem_def)
  qed
  show "\<forall>pre row post.
         records entries = pre @ row # post \<and> hd row = q \<and> (\<forall>r\<in>set post. hd r \<noteq> q) \<longrightarrow>
         (\<exists>blag_map. parse_map_list mapping = Inr blag_map
            \<and> lookup_address idx q = Some (map (\<lambda>x. the (blag_map x)) (tl row))
            \<and> defaultdict_getitem (Defaultdict idx) q
                = (map (\<lambda>x. the (blag_map x)) (tl row), Defaultdict idx))"
  proof (intro allI impI)
    fix pre row post
    assume a: "records entries = pre @ row # post \<and> hd row = q \<and> (\<forall>r\<in>set post. hd r \<noteq> q)"
    from index_last_wins[OF assms, of pre row post] a obtain blag_map where
      bm: "parse_map_list mapping = Inr blag_map"
      and v: "idx q = Some (map (\<lambda>x. the (blag_map x)) (tl row))" by auto
    from v l have "lookup_address idx q = Some (map (\<lambda>x. the (blag_map x)) (tl row))
       \<and> defaultdict_getitem (Defaultdict idx) q
                = (map (\<lambda>x. the (blag_map x)) (tl row), Defaultdict idx)"
      by (simp add: defaultdict_getitem_def)
    with bm show "\<exists>blag_map. parse_map_list mapping = Inr blag_map
            \<and> lookup_address idx q = Some (map (\<lambda>x. the (blag_map x)) (tl row))
            \<and> defaultdict_getitem (Defaultdict idx) q
                = (map (\<lambda>x. the (blag_map x)) (tl row), Defaultdict idx)" by blast
  qed
qed

text \<open>
  The mapping \<open>ASN:111,m1\<close> and the entries \<open>10.0.0.5,m1\<close>: in \<open>main.py\<close> \<open>10.0.0.5\<close> is
  found, its neighbour \<open>10.0.0.6\<close> is not.
\<close>

lemma main_lookup_exact_example:
  "(case parse_blag_contents (ascii ''10.0.0.5,m1'') (ascii ''ASN:111,m1'') of
      Inl e \<Rightarrow> False
    | Inr idx \<Rightarrow>
        lookup_address idx (ascii ''10.0.0.5'') = Some [ascii ''ASN:111'']
      \<and> lookup_address idx (ascii ''10.0.0.6'') = None
      \<and> main_print idx [ascii ''10.0.0.6''] = [])"
proof -
  have "\<exists>idx. parse_blag_contents (ascii ''10.0.0.5,m1'') (ascii ''ASN:111,m1'') = Inr idx"
    by (simp add: reader_eval parse_eval)
  then obtain idx where
    idx: "parse_blag_contents (ascii ''10.0.0.5,m1'') (ascii ''ASN:111,m1'') = Inr idx" ..
  have r: "records (ascii ''10.0.0.5,m1'') = [] @ [ascii ''10.0.0.5'', ascii ''m1''] # []"
    by (simp add: reader_eval)
  have bm: "\<exists>t. parse_map_list (ascii ''ASN:111,m1'') = Inr t \<and> t (ascii ''m1'') = Some (ascii ''ASN:111'')"
    by (simp add: reader_eval parse_eval)
  have n: "ascii ''10.0.0.6'' \<notin> hd ` set (records (ascii ''10.0.0.5,m1''))"
    unfolding r by (simp add: ascii_def)
  note th6 = main_lookup_exact[OF idx, of "ascii ''10.0.0.6''"]
  from th6[THEN conjunct2, THEN conjunct1] n
  have a: "lookup_address idx (ascii ''10.0.0.6'') = None \<and> main_print idx [ascii ''10.0.0.6''] = []"
    by simp
  note th5 = main_lookup_exact[OF idx, of "ascii ''10.0.0.5''"]
  have p: "records (ascii ''10.0.0.5,m1'') = [] @ [ascii ''10.0.0.5'', ascii ''m1''] # []
       \<and> hd [ascii ''10.0.0.5'', ascii ''m1''] = ascii ''10.0.0.5''
       \<and> (\<forall>r\<in>set []. hd r \<noteq> ascii ''10.0.0.5'')"
    using r by simp
  from th5[THEN conjunct2, THEN conjunct2, rule_format, OF p]
  obtain blag_map where b1: "parse_map_list (ascii ''ASN:111,m1'') = Inr blag_map"
    and b2: "lookup_address idx (ascii ''10.0.0.5'')
       = Some (map (\<lambda>x. the (blag_map x)) (tl [ascii ''10.0.0.5'', ascii ''m1'']))"
    by blast
  from bm b1 have "blag_map (ascii ''m1'') = Some (ascii ''ASN:111'')" by auto
  with b2 have "lookup_address idx (ascii ''10.0.0.5'') = Some [ascii ''ASN:111'']" by simp
  with a idx show ?thesis by simp
qed

text \<open>
  C3. The claim has an address that is not byte-identical to a listed one give an absent
  result. \<open>main.py\<close> does so, but \<open>tools/main.py\<close> subscripts the \<open>defaultdict\<close> of the
  method with no membership test. With the mapping \<open>ASN:111,m1\<close> and the entries
  \<open>10.0.0.5,m1\n10.0.0.9\<close>, the query \<open>10.0.0.6\<close> is not listed: \<open>main.py\<close> finds nothing
  and prints nothing; in \<open>tools/main.py\<close> the subscript returns the empty list, a line is
  printed for the query, the very line format printed for the listed address \<open>10.0.0.9\<close>,
  which has no descriptors, and the query is now a key of the index.
\<close>

theorem tools_lookup_unlisted_failing_input:
  "(case parse_blag_contents (ascii ''10.0.0.5,m1'' @ [10] @ ascii ''10.0.0.9'') (ascii ''ASN:111,m1'') of
      Inl e \<Rightarrow> False
    | Inr idx \<Rightarrow>
        idx (ascii ''10.0.0.9'') = Some []
      \<and> lookup_address idx (ascii ''10.0.0.6'') = None
      \<and> main_print idx [ascii ''10.0.0.6''] = [])
   \<and> (case fst (BlagBL_parse_blag_contents
          \<lparr>database = [], blag_list = Some (ascii ''10.0.0.5,m1'' @ [10] @ ascii ''10.0.0.9''),
           map_list = Some (ascii ''ASN:111,m1''), ips = None\<rparr>) of
        Inl e \<Rightarrow> False
      | Inr d \<Rightarrow>
          dict_of d (ascii ''10.0.0.6'') = None
        \<and> fst (defaultdict_getitem d (ascii ''10.0.0.6'')) = []
        \<and> dict_of (snd (defaultdict_getitem d (ascii ''10.0.0.6''))) (ascii ''10.0.0.6'') = Some []
        \<and> fst (tools_main_print d [ascii ''10.0.0.6'']) = [format_line (ascii ''10.0.0.6'') []]
        \<and> fst (tools_main_print d [ascii ''10.0.0.9'']) = [format_line (ascii ''10.0.0.9'') []])"
proof -
  let ?b = "ascii ''10.0.0.5,m1'' @ [10] @ ascii ''10.0.0.9''"
  let ?m = "ascii ''ASN:111,m1''"
  let ?self = "\<lparr>database = [], blag_list = Some ?b, map_list = Some ?m, ips = None\<rparr>"
  have "\<exists>idx. parse_blag_contents ?b ?m = Inr idx \<and> idx (ascii ''10.0.0.6'') = None
      \<and> idx (ascii ''10.0.0.9'') = Some []"
    by (simp add: reader_eval parse_eval)
  then obtain idx where idx: "parse_blag_contents ?b ?m = Inr idx"
    and v6: "idx (ascii ''10.0.0.6'') = None" and v9: "idx (ascii ''10.0.0.9'') = Some []"
    by blast
  have ne: "?b \<noteq> []" "?m \<noteq> []"
    by (simp_all add: ascii_def)
  have "fst (BlagBL_parse_blag_contents ?self) = map_sum id Defaultdict (parse_blag_contents ?b ?m)"
    by (rule method_direct[OF _ _ ne]) simp_all
  with idx have d: "fst (BlagBL_parse_blag_contents ?self) = Inr (Defaultdict idx)"
    by simp
  have m: "lookup_address idx (ascii ''10.0.0.6'') = None \<and> main_print idx [ascii ''10.0.0.6''] = []"
    using v6 by (simp add: lookup_address_def domIff)
  have t: "fst (defaultdict_getitem (Defaultdict idx) (ascii ''10.0.0.6'')) = []
        \<and> dict_of (snd (defaultdict_getitem (Defaultdict idx) (ascii ''10.0.0.6''))) (ascii ''10.0.0.6'') = Some []
        \<and> fst (tools_main_print (Defaultdict idx) [ascii ''10.0.0.6'']) = [format_line (ascii ''10.0.0.6'') []]
        \<and> fst (tools_main_print (Defaultdict idx) [ascii ''10.0.0.9'']) = [format_line (ascii ''10.0.0.9'') []]"
    using v6 v9 by (simp add: defaultdict_getitem_def defaultdict_setitem_def)
  show ?thesis
    unfolding idx d using v6 v9 m t by simp
qed

section \<open>Reading the archive\<close>

lemma utf8_decode_error: "utf8_decode bs = Inl e \<Longrightarrow> e = UnicodeDecodeError"
proof (induction bs arbitrary: e rule: utf8_decode.induct)
  case (1 bs)
  show ?case
  proof (cases "bs = []")
    case True
    with "1.prems" show ?thesis by (simp add: utf8_decode.simps)
  next
    case False
    show ?thesis
    proof (cases "utf8_next bs")
      case None
      with False "1.prems" show ?thesis by (subst (asm) utf8_decode.simps) simp
    next
      case (Some p)
      obtain c r where p: "p = (c, r)" by (cases p)
      from False Some p "1.prems" have "utf8_decode r = Inl e"
        by (subst (asm) utf8_decode.simps) (auto split: sum.splits)
      from "1.IH"[OF False Some p[symmetric] this] show ?thesis .
    qed
  qed
qed

lemma decode_error: "decode bs = Inl e \<Longrightarrow> e = UnicodeDecodeError"
  unfolding decode_def by (rule utf8_decode_error)

lemma last_member:
  assumes "name \<in> fst ` set zfile"
  shows "\<exists>j<length zfile. fst (zfile ! j) = name
           \<and> (\<forall>k. j < k \<and> k < length zfile \<longrightarrow> fst (zfile ! k) \<noteq> name)
           \<and> map_of (rev zfile) name = Some (snd (zfile ! j))"
  using assms
proof (induction zfile rule: rev_induct)
  case Nil
  then show ?case by simp
next
  case (snoc x xs)
  show ?case
  proof (cases "fst x = name")
    case True
    have "length xs < length (xs @ [x]) \<and> fst ((xs @ [x]) ! length xs) = name
       \<and> (\<forall>k. length xs < k \<and> k < length (xs @ [x]) \<longrightarrow> fst ((xs @ [x]) ! k) \<noteq> name)
       \<and> map_of (rev (xs @ [x])) name = Some (snd ((xs @ [x]) ! length xs))"
      using True by (cases x) auto
    then show ?thesis by blast
  next
    case False
    with snoc.prems have "name \<in> fst ` set xs" by auto
    from snoc.IH[OF this] obtain j where j: "j < length xs" "fst (xs ! j) = name"
      "\<forall>k. j < k \<and> k < length xs \<longrightarrow> fst (xs ! k) \<noteq> name"
      "map_of (rev xs) name = Some (snd (xs ! j))" by blast
    have "j < length (xs @ [x]) \<and> fst ((xs @ [x]) ! j) = name
       \<and> (\<forall>k. j < k \<and> k < length (xs @ [x]) \<longrightarrow> fst ((xs @ [x]) ! k) \<noteq> name)
       \<and> map_of (rev (xs @ [x])) name = Some (snd ((xs @ [x]) ! j))"
      using j False by (cases x) (auto simp: nth_append less_Suc_eq)
    then show ?thesis by blast
  qed
qed

lemma distinct_index:
  assumes "distinct (map fst zfile)" "i < length zfile" "j < length zfile"
    "fst (zfile ! j) = fst (zfile ! i)"
  shows "j = i"
  using assms by (metis distinct_conv_nth length_map nth_map)

lemma fetch_blag_files_short: "length zfile < 3 \<Longrightarrow> fetch_blag_files zfile = Inl IndexError"
  by (auto simp: fetch_blag_files_def)

lemma fetch_blag_files_long:
  assumes "3 \<le> length zfile"
  shows "\<exists>j1 j2. j1 < length zfile \<and> j2 < length zfile
         \<and> fst (zfile ! j1) = fst (zfile ! 1)
         \<and> (\<forall>k. j1 < k \<and> k < length zfile \<longrightarrow> fst (zfile ! k) \<noteq> fst (zfile ! 1))
         \<and> fst (zfile ! j2) = fst (zfile ! 2)
         \<and> (\<forall>k. j2 < k \<and> k < length zfile \<longrightarrow> fst (zfile ! k) \<noteq> fst (zfile ! 2))
         \<and> (distinct (map fst zfile) \<longrightarrow> j1 = 1 \<and> j2 = 2)
         \<and> fetch_blag_files zfile =
             (case decode (snd (zfile ! j1)) of
                Inl e \<Rightarrow> Inl UnicodeDecodeError
              | Inr b \<Rightarrow>
                  (case decode (snd (zfile ! j2)) of
                     Inl e \<Rightarrow> Inl UnicodeDecodeError
                   | Inr m \<Rightarrow> Inr (b, m)))"
proof -
  have n1: "fst (zfile ! 1) \<in> fst ` set zfile" and n2: "fst (zfile ! 2) \<in> fst ` set zfile"
    using assms nth_mem[of 1 zfile] nth_mem[of 2 zfile] by (auto simp: image_iff)
  from last_member[OF n1] obtain j1 where j1: "j1 < length zfile" "fst (zfile ! j1) = fst (zfile ! 1)"
    "\<forall>k. j1 < k \<and> k < length zfile \<longrightarrow> fst (zfile ! k) \<noteq> fst (zfile ! 1)"
    "map_of (rev zfile) (fst (zfile ! 1)) = Some (snd (zfile ! j1))" by blast
  from last_member[OF n2] obtain j2 where j2: "j2 < length zfile" "fst (zfile ! j2) = fst (zfile ! 2)"
    "\<forall>k. j2 < k \<and> k < length zfile \<longrightarrow> fst (zfile ! k) \<noteq> fst (zfile ! 2)"
    "map_of (rev zfile) (fst (zfile ! 2)) = Some (snd (zfile ! j2))" by blast
  have d: "distinct (map fst zfile) \<longrightarrow> j1 = 1 \<and> j2 = 2"
    using distinct_index[of zfile 1 j1] distinct_index[of zfile 2 j2] j1(1,2) j2(1,2) assms by auto
  have f: "fetch_blag_files zfile =
             (case decode (snd (zfile ! j1)) of
                Inl e \<Rightarrow> Inl UnicodeDecodeError
              | Inr b \<Rightarrow>
                  (case decode (snd (zfile ! j2)) of
                     Inl e \<Rightarrow> Inl UnicodeDecodeError
                   | Inr m \<Rightarrow> Inr (b, m)))"
    using assms j1(4) j2(4)
    by (auto simp: fetch_blag_files_def zip_read_def split: sum.splits dest: decode_error)
  from j1(1,2,3) j2(1,2,3) d f show ?thesis by blast
qed

lemma extract_is_fetch: "fst (extract_blag_files self) = fetch_blag_files (database self)"
  by (auto simp: extract_blag_files_def fetch_blag_files_def Let_def split: sum.splits)

lemmas archive_eval = fetch_blag_files_def zip_read_def decode_def ascii_def utf8_decode.simps

text \<open>
  C7, as the claim states it, fails: the members are not taken by position. In this
  archive the fourth member repeats the name of the second; the entries text returned is
  the fourth member's, not the second's.
\<close>

theorem fetch_blag_files_position_counterexample:
  "decode (snd ([(ascii ''README'', ''x''), (ascii ''e'', ''10.0.0.5,m1''),
                 (ascii ''m'', ''X,m1''), (ascii ''e'', ''10.0.0.9,m1'')] ! 1))
     = Inr (ascii ''10.0.0.5,m1'')
   \<and> fetch_blag_files [(ascii ''README'', ''x''), (ascii ''e'', ''10.0.0.5,m1''),
                        (ascii ''m'', ''X,m1''), (ascii ''e'', ''10.0.0.9,m1'')]
     = Inr (ascii ''10.0.0.9,m1'', ascii ''X,m1'')"
  by (simp add: archive_eval)

text \<open>
  C7, amended. \<open>fetch_blag_files\<close> and \<open>extract_blag_files\<close> take the \<^emph>\<open>names\<close> of the second
  and third members and read, for each name, the last member of the archive that carries
  it: the second and third members themselves when the member names are distinct. They
  fail with \<open>IndexError\<close> for every archive with fewer than three members and with
  \<open>UnicodeDecodeError\<close> when a member they read is not UTF-8 (both the spec's
  \<open>ArchiveFormatError\<close>), and otherwise return the two decoded texts.
\<close>

theorem fetch_blag_files_members:
  "(length zfile < 3 \<longrightarrow> fetch_blag_files zfile = Inl IndexError)
   \<and> (3 \<le> length zfile \<longrightarrow>
        (\<exists>j1 j2. j1 < length zfile \<and> j2 < length zfile
           \<and> fst (zfile ! j1) = fst (zfile ! 1)
           \<and> (\<forall>k. j1 < k \<and> k < length zfile \<longrightarrow> fst (zfile ! k) \<noteq> fst (zfile ! 1))
           \<and> fst (zfile ! j2) = fst (zfile ! 2)
           \<and> (\<forall>k. j2 < k \<and> k < length zfile \<longrightarrow> fst (zfile ! k) \<noteq> fst (zfile ! 2))
           \<and> (distinct (map fst zfile) \<longrightarrow> j1 = 1 \<and> j2 = 2)
           \<and> fetch_blag_files zfile =
               (case decode (snd (zfile ! j1)) of
                  Inl e \<Rightarrow> Inl UnicodeDecodeError
                | Inr b \<Rightarrow>
                    (case decode (snd (zfile ! j2)) of
                       Inl e \<Rightarrow> Inl UnicodeDecodeError
                     | Inr m \<Rightarrow> Inr (b, m)))))
   \<and> fst (extract_blag_files self) = fetch_blag_files (database self)"
  using fetch_blag_files_short[of zfile] fetch_blag_files_long[of zfile] extract_is_fetch[of self]
  by blast

text \<open>
  An archive of one member; an archive of three members with distinct names; and the same
  with a third member that is the single byte \<open>0xFF\<close>.
\<close>

theorem fetch_blag_files_members_witness:
  "fetch_blag_files [(ascii ''README'', ''x'')] = Inl IndexError
   \<and> fetch_blag_files [(ascii ''README'', ''x''), (ascii ''e'', ''10.0.0.5,m1''),
                        (ascii ''m'', ''X,m1'')]
       = Inr (ascii ''10.0.0.5,m1'', ascii ''X,m1'')
   \<and> fetch_blag_files [(ascii ''README'', ''x''), (ascii ''e'', ''10.0.0.5,m1''),
                        (ascii ''m'', [CHR 0xFF])]
       = Inl UnicodeDecodeError"
proof -
  let ?a1 = "[(ascii ''README'', ''x'')]"
  let ?a3 = "[(ascii ''README'', ''x''), (ascii ''e'', ''10.0.0.5,m1''), (ascii ''m'', ''X,m1'')]"
  let ?a3' = "[(ascii ''README'', ''x''), (ascii ''e'', ''10.0.0.5,m1''), (ascii ''m'', [CHR 0xFF])]"
  have s: "length ?a1 < 3" by simp
  from fetch_blag_files_members[where zfile = ?a1, THEN conjunct1, rule_format, OF s]
  have w1: "fetch_blag_files ?a1 = Inl IndexError" .
  have l: "3 \<le> length ?a3" "3 \<le> length ?a3'" by simp_all
  have d: "distinct (map fst ?a3)" "distinct (map fst ?a3')" by (simp_all add: ascii_def)
  from fetch_blag_files_members[where zfile = ?a3, THEN conjunct2, THEN conjunct1, rule_format, OF l(1)] d(1)
  have "fetch_blag_files ?a3 =
               (case decode (snd (?a3 ! 1)) of
                  Inl e \<Rightarrow> Inl UnicodeDecodeError
                | Inr b \<Rightarrow>
                    (case decode (snd (?a3 ! 2)) of
                       Inl e \<Rightarrow> Inl UnicodeDecodeError
                     | Inr m \<Rightarrow> Inr (b, m)))"
    by blast
  then have w2: "fetch_blag_files ?a3 = Inr (ascii ''10.0.0.5,m1'', ascii ''X,m1'')"
    by (simp add: decode_def ascii_def utf8_decode.simps)
  from fetch_blag_files_members[where zfile = ?a3', THEN conjunct2, THEN conjunct1, rule_format, OF l(2)] d(2)
  have "fetch_blag_files ?a3' =
               (case decode (snd (?a3' ! 1)) of
                  Inl e \<Rightarrow> Inl UnicodeDecodeError
                | Inr b \<Rightarrow>
                    (case decode (snd (?a3' ! 2)) of
                       Inl e \<Rightarrow> Inl UnicodeDecodeError
                     | Inr m \<Rightarrow> Inr (b, m)))"
    by blast
  then have w3: "fetch_blag_files ?a3' = Inl UnicodeDecodeError"
    by (simp add: decode_def ascii_def utf8_decode.simps)
  from w1 w2 w3 show ?thesis by blast
qed

section \<open>The range summarizer\<close>

lemmas ip_eval = range_addresses_def new_IPv4Address_def new_IPv6Address_def
  check_int_address_def ALL_ONES_def summarize_address_range_def summarize_loop.simps
  nbits_of_def count_righthand_zero_bits_def bit_length_def nat_bit_length.simps
  new_network_def ip_int_from_prefix_def Let_def

lemmas str_eval = expressions_def IPv4_string_from_ip_int_def
  IPv6_string_from_ip_int_def str_int_def decimal.simps hex.simps hexdigit_def
  compress_hextets_def Let_def ascii_def

text \<open>
  C1. The claim puts the boundary between the families at \<open>2^32\<close>: a range whose \<open>low\<close>
  is \<open>2^32\<close> is to be decomposed into IPv6 prefixes. The source tests
  \<open>left <= 2**33\<close>, so for \<open>low = 2^32 = 4294967296\<close> it takes the IPv4 branch, where
  \<open>IPv4Address(4294967296)\<close> raises \<open>AddressValueError\<close>: no prefix is emitted.
\<close>

theorem family_threshold_failing_input:
  "range_addresses (4294967296, 4294967297) = Inl AddressValueError
   \<and> networks [(4294967296, 4294967297)] = Inl AddressValueError
   \<and> output_pcap_filter [(4294967296, 4294967297)] = Inl AddressValueError"
  by (simp add: output_pcap_filter_def ip_eval)

subsection \<open>Bit counting\<close>

lemma nat_bit_length_bounds:
  "0 < n \<Longrightarrow> 2 ^ (nat_bit_length n - 1) \<le> n \<and> n < 2 ^ nat_bit_length n"
proof (induction n rule: nat_bit_length.induct)
  case (1 n)
  show ?case
  proof (cases "n div 2 = 0")
    case True
    with "1.prems" have "n = 1" by (simp add: div_eq_0_iff) 
    then show ?thesis by (simp add: nat_bit_length.simps)
  next
    case False
    then have h: "0 < n div 2" by simp
    from "1.prems" have n0: "n \<noteq> 0" by simp
    from "1.IH"[OF n0 h] have ih: "2 ^ (nat_bit_length (n div 2) - 1) \<le> n div 2"
      "n div 2 < 2 ^ nat_bit_length (n div 2)" by auto
    have pos: "0 < nat_bit_length (n div 2)"
      using h by (subst nat_bit_length.simps) simp
    have eq: "nat_bit_length n = Suc (nat_bit_length (n div 2))"
      using n0 by (subst nat_bit_length.simps) simp
    have a: "2 ^ (nat_bit_length n - 1) \<le> n"
    proof -
      have "2 ^ (nat_bit_length n - 1) = 2 * 2 ^ (nat_bit_length (n div 2) - 1)"
        using pos eq by (cases "nat_bit_length (n div 2)") auto
      also have "\<dots> \<le> 2 * (n div 2)" using ih(1) by simp
      also have "\<dots> \<le> n" by simp
      finally show ?thesis .
    qed
    have b: "n < 2 ^ nat_bit_length n"
    proof -
      have "n < 2 * (n div 2) + 2" by presburger
      also have "\<dots> \<le> 2 * 2 ^ nat_bit_length (n div 2)" using ih(2) by simp
      finally show ?thesis by (simp add: eq)
    qed
    from a b show ?thesis ..
  qed
qed

lemma low_mask_odd:
  fixes x :: int
  assumes "odd x"
  shows "NOT x AND (x - 1) = 0"
proof -
  have "(x - 1) div 2 = x div 2" using assms by presburger
  then show ?thesis
    using assms by (subst and_rec) (simp add: not_int_div_2)
qed

lemma low_mask_even:
  fixes x :: int
  assumes "even x"
  shows "NOT x AND (x - 1) = 1 + 2 * (NOT (x div 2) AND (x div 2 - 1))"
proof -
  have "(x - 1) div 2 = x div 2 - 1" using assms by presburger
  then show ?thesis
    using assms by (subst and_rec) (simp add: not_int_div_2)
qed

lemma low_mask_nonneg:
  fixes x :: int
  assumes "0 < x"
  shows "0 \<le> NOT x AND (x - 1)"
  using assms by simp

lemma nat_bit_length_double:
  "nat_bit_length (Suc (2 * m)) = Suc (nat_bit_length m)"
  by (subst nat_bit_length.simps) simp

lemma bit_length_nonneg: "0 \<le> x \<Longrightarrow> bit_length x = nat_bit_length (nat x)"
  by (simp add: bit_length_def)

lemma bit_length_low_mask_even:
  fixes x :: int
  assumes "even x" "0 < x"
  shows "bit_length (NOT x AND (x - 1)) = Suc (bit_length (NOT (x div 2) AND (x div 2 - 1)))"
proof -
  from assms have h: "0 < x div 2" by presburger
  let ?t = "NOT (x div 2) AND (x div 2 - 1)"
  have t: "0 \<le> ?t" using h by simp
  have "nat (1 + 2 * ?t) = Suc (2 * nat ?t)" using t by (simp add: nat_add_distrib nat_mult_distrib)
  then show ?thesis
    using t by (simp add: low_mask_even[OF assms(1)] bit_length_nonneg nat_bit_length_double)
qed

lemma dvd_iff_low_mask:
  fixes x :: int
  assumes "0 < x"
  shows "(2 ^ j dvd x) = (j \<le> bit_length (NOT x AND (x - 1)))"
  using assms
proof (induction "nat x" arbitrary: x j rule: less_induct)
  case less
  show ?case
  proof (cases "even x")
    case False
    then have t: "bit_length (NOT x AND (x - 1)) = 0"
      by (simp add: low_mask_odd bit_length_def nat_bit_length.simps)
    have "(2 ^ j dvd x) = (j = 0)"
    proof (cases j)
      case 0
      then show ?thesis by simp
    next
      case (Suc i)
      have "\<not> 2 ^ Suc i dvd x"
      proof
        assume "2 ^ Suc i dvd x"
        then have "2 dvd x" by (metis dvd_mult_left power_Suc)
        with False show False by simp
      qed
      with Suc show ?thesis by simp
    qed
    with t show ?thesis by simp
  next
    case True
    with less.prems have h: "0 < x div 2" by presburger
    from less.prems have "x div 2 < x" by presburger
    with h have sm: "nat (x div 2) < nat x" by simp
    note bl = bit_length_low_mask_even[OF True less.prems]
    show ?thesis
    proof (cases j)
      case 0
      then show ?thesis by simp
    next
      case (Suc i)
      from True obtain y where y: "x = 2 * y" by (elim evenE)
      have "(2 ^ Suc i dvd x) = (2 ^ i dvd x div 2)"
        unfolding y by simp
      also have "\<dots> = (i \<le> bit_length (NOT (x div 2) AND (x div 2 - 1)))"
        using less.hyps[OF sm h] .
      finally show ?thesis using Suc bl by simp
    qed
  qed
qed

lemma bit_length_bounds:
  fixes m :: int
  assumes "0 < m"
  shows "2 ^ (bit_length m - 1) \<le> m" "m < 2 ^ bit_length m"
proof -
  from assms have p: "0 < nat m" by simp
  from nat_bit_length_bounds[OF p] have a: "2 ^ (nat_bit_length (nat m) - 1) \<le> nat m"
    and b: "nat m < 2 ^ nat_bit_length (nat m)" by auto
  have bl: "bit_length m = nat_bit_length (nat m)" using assms by (simp add: bit_length_def)
  from a have "int (2 ^ (nat_bit_length (nat m) - 1)) \<le> int (nat m)" by (rule iffD2[OF of_nat_le_iff])
  then show "2 ^ (bit_length m - 1) \<le> m" using assms bl by simp
  from b have "int (nat m) < int (2 ^ nat_bit_length (nat m))" by (rule iffD2[OF of_nat_less_iff])
  then show "m < 2 ^ bit_length m" using assms bl by simp
qed

lemma power_le_imp_le_bit_length:
  fixes m :: int
  assumes "0 < m" "2 ^ k \<le> m"
  shows "k \<le> bit_length m - 1"
proof -
  from assms(2) bit_length_bounds(2)[OF assms(1)] have "(2::int) ^ k < 2 ^ bit_length m"
    by (rule le_less_trans)
  then have "k < bit_length m" by (rule power_less_imp_less_exp[rotated]) simp
  then show ?thesis by simp
qed

lemma nbits_dvd:
  assumes "0 \<le> first_int" "first_int \<le> last_int"
  shows "2 ^ nbits_of bits first_int last_int dvd first_int"
proof (cases "first_int = 0")
  case True
  then show ?thesis by simp
next
  case False
  with assms have p: "0 < first_int" by simp
  have "nbits_of bits first_int last_int \<le> bit_length (NOT first_int AND (first_int - 1))"
    using False by (simp add: nbits_of_def count_righthand_zero_bits_def)
  with dvd_iff_low_mask[OF p] show ?thesis by simp
qed

lemma nbits_fits:
  assumes "first_int \<le> last_int"
  shows "first_int + 2 ^ nbits_of bits first_int last_int - 1 \<le> last_int"
proof -
  let ?m = "last_int - first_int + 1"
  have p: "0 < ?m" using assms by simp
  have "nbits_of bits first_int last_int \<le> bit_length ?m - 1"
    by (simp add: nbits_of_def)
  then have "(2::int) ^ nbits_of bits first_int last_int \<le> 2 ^ (bit_length ?m - 1)"
    by (simp add: power_increasing)
  also have "\<dots> \<le> ?m" by (rule bit_length_bounds(1)[OF p])
  finally show ?thesis by simp
qed

lemma nbits_le_bits: "nbits_of bits first_int last_int \<le> bits"
  by (auto simp: nbits_of_def count_righthand_zero_bits_def min_def)

lemma nbits_maximal:
  assumes "0 \<le> first_int" "first_int \<le> last_int" "last_int < 2 ^ bits"
    "2 ^ k dvd first_int" "first_int + 2 ^ k - 1 \<le> last_int"
  shows "k \<le> nbits_of bits first_int last_int"
proof -
  let ?m = "last_int - first_int + 1"
  have p: "0 < ?m" using assms by simp
  have km: "(2::int) ^ k \<le> ?m" using assms(5) by simp
  have a: "k \<le> bit_length ?m - 1" by (rule power_le_imp_le_bit_length[OF p km])
  have "?m \<le> 2 ^ bits" using assms by simp
  with km have "(2::int) ^ k \<le> 2 ^ bits" by (rule order_trans)
  then have kb: "k \<le> bits" by (rule power_le_imp_le_exp[rotated]) simp
  have b: "k \<le> count_righthand_zero_bits first_int bits"
  proof (cases "first_int = 0")
    case True
    with kb show ?thesis by (simp add: count_righthand_zero_bits_def)
  next
    case False
    with assms have q: "0 < first_int" by simp
    from dvd_iff_low_mask[OF q, of k] assms(4)
    have "k \<le> bit_length (NOT first_int AND (first_int - 1))" by simp
    with kb False show ?thesis by (simp add: count_righthand_zero_bits_def)
  qed
  from a b show ?thesis by (simp add: nbits_of_def)
qed

subsection \<open>One round of the loop\<close>

lemma bit_imp_less:
  fixes a :: int
  assumes "0 \<le> a" "a < 2 ^ bits" "bit a i"
  shows "i < bits"
proof -
  have tb: "take_bit bits a = a" using assms(1,2) by (rule take_bit_int_eq_self)
  from assms(3) have "bit (take_bit bits a) i" unfolding tb .
  then show ?thesis unfolding bit_take_bit_iff by simp
qed

lemma bit_imp_ge:
  fixes a :: int
  assumes "2 ^ n dvd a" "bit a i"
  shows "n \<le> i"
proof (rule ccontr)
  assume "\<not> n \<le> i"
  then have "i < n" by simp
  from assms(1) have z: "take_bit n a = 0" by (simp add: take_bit_eq_0_iff)
  have "\<not> bit (take_bit n a) i" unfolding z by simp
  then show False unfolding bit_take_bit_iff using \<open>i < n\<close> assms(2) by simp
qed

lemma host_bits:
  assumes "0 \<le> a" "a < 2 ^ bits" "2 ^ n dvd a" "n \<le> bits"
  shows "a AND ip_int_from_prefix bits (int bits - int n) = a"
proof (rule bit_eqI)
  fix i
  have m: "ALL_ONES bits = mask bits" by (simp add: ALL_ONES_def mask_eq_exp_minus_1)
  have n: "nat (int bits - int n) = bits - n" using assms(4) by simp
  show "bit (a AND ip_int_from_prefix bits (int bits - int n)) i = bit a i"
  proof (cases "bit a i")
    case False
    then show ?thesis by (simp add: bit_and_iff)
  next
    case True
    from bit_imp_less[OF assms(1,2) True] have l: "i < bits" .
    from bit_imp_ge[OF assms(3) True] have g: "n \<le> i" .
    from l g assms(4) have "\<not> bits - n + i < bits" by simp
    with True l show ?thesis
      by (simp add: ip_int_from_prefix_def m n bit_and_iff bit_xor_iff bit_mask_iff bit_drop_bit_eq)
  qed
qed

lemma summarize_loop_done:
  "last_int < first_int \<Longrightarrow> summarize_loop bits first_int last_int = ([], None)"
  by (subst summarize_loop.simps) simp

lemma new_network_block:
  assumes "0 \<le> first_int" "first_int \<le> last_int" "last_int < 2 ^ bits"
  shows "new_network bits first_int (int bits - int (nbits_of bits first_int last_int))
       = Inr (block_net bits (first_int, nbits_of bits first_int last_int))"
proof -
  let ?n = "nbits_of bits first_int last_int"
  have c: "check_int_address bits first_int"
    using assms by (simp add: check_int_address_def ALL_ONES_def)
  have p: "0 \<le> int bits - int ?n \<and> int bits - int ?n \<le> int bits"
    using nbits_le_bits[of bits first_int last_int] by simp
  have lt: "first_int < 2 ^ bits" using assms by simp
  have h: "first_int AND ip_int_from_prefix bits (int bits - int ?n) = first_int"
    by (rule host_bits[OF assms(1) lt nbits_dvd[OF assms(1,2)] nbits_le_bits])
  show ?thesis
    unfolding new_network_def block_net_def using c p h by simp
qed

lemma summarize_loop_step:
  assumes "0 \<le> first_int" "first_int \<le> last_int" "last_int < 2 ^ bits"
  shows "summarize_loop bits first_int last_int =
     (case summarize_loop bits (first_int + 2 ^ nbits_of bits first_int last_int) last_int of
        (nets, e) \<Rightarrow> (block_net bits (first_int, nbits_of bits first_int last_int) # nets, e))"
proof (cases "first_int + 2 ^ nbits_of bits first_int last_int - 1 = ALL_ONES bits")
  case True
  then have "last_int < first_int + 2 ^ nbits_of bits first_int last_int"
    using assms(3) by (simp add: ALL_ONES_def)
  from summarize_loop_done[OF this] True show ?thesis
    using assms(2) new_network_block[OF assms]
    by (subst summarize_loop.simps) (simp add: Let_def)
next
  case False
  then show ?thesis
    using assms(2) new_network_block[OF assms]
    by (subst summarize_loop.simps) (simp add: Let_def)
qed

subsection \<open>Aligned blocks\<close>

lemma div_eq_iff_bounds:
  fixes x d q :: int
  assumes "0 < d"
  shows "(x div d = q) = (d * q \<le> x \<and> x < d * q + d)"
proof
  assume "x div d = q"
  then have "x = d * q + x mod d" by (metis mult_div_mod_eq)
  moreover have "0 \<le> x mod d" "x mod d < d" using assms by simp_all
  ultimately show "d * q \<le> x \<and> x < d * q + d" by linarith
next
  assume b: "d * q \<le> x \<and> x < d * q + d"
  have "x div d = ((x - d * q) + d * q) div d" by simp
  also have "\<dots> = q + (x - d * q) div d" using assms by (subst div_mult_self2) simp_all
  also have "(x - d * q) div d = 0" using b by (intro div_pos_pos_trivial) simp_all
  finally show "x div d = q" by simp
qed

lemma cover_div:
  assumes "aligned (a, k)"
  shows "(x \<in> block_cover (a, k)) = (x div 2 ^ k = a div 2 ^ k)"
proof -
  from assms obtain q where a: "a = 2 ^ k * q" by (auto simp: aligned_def elim: dvdE)
  have q: "a div 2 ^ k = q" by (simp add: a)
  show ?thesis
    unfolding q div_eq_iff_bounds[of "2 ^ k" x q, simplified] block_cover_def
    by (simp add: a)
qed

lemma nested_blocks:
  assumes "aligned (a, k)" "aligned (a', k')" "k \<le> k'"
    "x \<in> block_cover (a, k)" "x \<in> block_cover (a', k')"
  shows "block_cover (a, k) \<subseteq> block_cover (a', k')"
proof
  fix y assume "y \<in> block_cover (a, k)"
  with assms(4) have e: "y div 2 ^ k = x div 2 ^ k" by (simp add: cover_div[OF assms(1)])
  have s: "z div 2 ^ k' = z div 2 ^ k div 2 ^ (k' - k)" for z :: int
  proof -
    have "(2::int) ^ k' = 2 ^ k * 2 ^ (k' - k)" using assms(3) by (simp flip: power_add)
    then show ?thesis by (simp add: zdiv_zmult2_eq)
  qed
  have "y div 2 ^ k' = x div 2 ^ k'" by (simp add: s e)
  with assms(5) show "y \<in> block_cover (a', k')" by (simp add: cover_div[OF assms(2)])
qed

lemma block_inside_greedy:
  assumes "0 \<le> first_int" "first_int \<le> last_int" "last_int < 2 ^ bits"
    and "aligned b" "block_cover b \<subseteq> {first_int..last_int}"
    and "block_cover b \<inter> block_cover (first_int, nbits_of bits first_int last_int) \<noteq> {}"
  shows "block_cover b \<subseteq> block_cover (first_int, nbits_of bits first_int last_int)"
proof -
  let ?n = "nbits_of bits first_int last_int"
  obtain a k where b: "b = (a, k)" by (cases b)
  have g: "aligned (first_int, ?n)"
    using nbits_dvd[OF assms(1,2)] by (simp add: aligned_def)
  from assms(6) obtain x where x: "x \<in> block_cover (a, k)" "x \<in> block_cover (first_int, ?n)"
    unfolding b by blast
  have ab: "aligned (a, k)" using assms(4) b by simp
  show ?thesis
  proof (cases "k \<le> ?n")
    case True
    from nested_blocks[OF ab g True x] show ?thesis by (simp add: b)
  next
    case False
    then have le: "?n \<le> k" by simp
    from nested_blocks[OF g ab le x(2) x(1)] have sub: "block_cover (first_int, ?n) \<subseteq> block_cover (a, k)" .
    have "first_int \<in> block_cover (first_int, ?n)" by (simp add: block_cover_def)
    with sub have "first_int \<in> block_cover (a, k)" by blast
    then have 1: "a \<le> first_int" by (simp add: block_cover_def)
    have ain: "a \<in> block_cover (a, k)" by (simp add: block_cover_def)
    with assms(5) b have 2: "first_int \<le> a" by auto
    from 1 2 have eq: "a = first_int" by simp
    have "a + 2 ^ k - 1 \<in> block_cover (a, k)" by (simp add: block_cover_def)
    with assms(5) b have fit: "first_int + 2 ^ k - 1 \<le> last_int" unfolding eq by auto
    from ab eq have dv: "2 ^ k dvd first_int" by (simp add: aligned_def)
    from nbits_maximal[OF assms(1,2,3) dv fit] False show ?thesis by simp
  qed
qed

lemma summarize_loop_blocks:
  assumes "0 \<le> first_int" "last_int < 2 ^ bits"
  shows "\<exists>blocks. summarize_loop bits first_int last_int = (map (block_net bits) blocks, None)
          \<and> (\<forall>b\<in>set blocks. aligned b \<and> snd b \<le> bits)
          \<and> \<Union>(block_cover ` set blocks) = {first_int..last_int}"
  using assms
proof (induction "nat (last_int - first_int + 1)" arbitrary: first_int rule: less_induct)
  case less
  show ?case
  proof (cases "first_int \<le> last_int")
    case False
    then have "summarize_loop bits first_int last_int = (map (block_net bits) [], None)"
      by (simp add: summarize_loop_done)
    moreover have "\<Union>(block_cover ` set []) = {first_int..last_int}" using False by simp
    ultimately show ?thesis by (intro exI[of _ "[]"]) simp
  next
    case True
    let ?n = "nbits_of bits first_int last_int"
    let ?f = "first_int + 2 ^ ?n"
    have sm: "nat (last_int - ?f + 1) < nat (last_int - first_int + 1)"
      using True by simp
    have nn: "0 \<le> ?f" using less.prems(1) by simp
    from less.hyps[OF sm nn less.prems(2)] obtain blocks where
      r: "summarize_loop bits ?f last_int = (map (block_net bits) blocks, None)"
      and al: "\<forall>b\<in>set blocks. aligned b \<and> snd b \<le> bits"
      and cv: "\<Union>(block_cover ` set blocks) = {?f..last_int}" by blast
    have st: "summarize_loop bits first_int last_int =
        (map (block_net bits) ((first_int, ?n) # blocks), None)"
      using summarize_loop_step[OF less.prems(1) True less.prems(2)] r by simp
    have g: "aligned (first_int, ?n) \<and> snd (first_int, ?n) \<le> bits"
      using nbits_dvd[OF less.prems(1) True] nbits_le_bits[of bits first_int last_int]
      by (simp add: aligned_def)
    have fit: "?f - 1 \<le> last_int" using nbits_fits[OF True, of bits] by simp
    have pw: "(0::int) < 2 ^ ?n" by simp
    have "block_cover (first_int, ?n) \<union> {?f..last_int} = {first_int..last_int}"
      using fit pw unfolding block_cover_def by (auto simp del: zero_less_power)
    with cv have c: "\<Union>(block_cover ` set ((first_int, ?n) # blocks)) = {first_int..last_int}"
      by simp
    from st g al c show ?thesis
      by (intro exI[of _ "(first_int, ?n) # blocks"]) simp
  qed
qed

subsection \<open>No cover has fewer blocks\<close>

lemma summarize_loop_minimal:
  assumes "0 \<le> first_int" "last_int < 2 ^ bits" "finite B" "\<forall>b\<in>B. aligned b"
    "\<Union>(block_cover ` B) = {first_int..last_int}"
  shows "length (fst (summarize_loop bits first_int last_int)) \<le> card B"
  using assms
proof (induction "nat (last_int - first_int + 1)" arbitrary: first_int B rule: less_induct)
  case less
  show ?case
  proof (cases "first_int \<le> last_int")
    case False
    then show ?thesis by (simp add: summarize_loop_done)
  next
    case True
    let ?n = "nbits_of bits first_int last_int"
    let ?G = "(first_int, ?n)"
    let ?f = "first_int + 2 ^ ?n"
    define B1 where "B1 = {b \<in> B. block_cover b \<inter> block_cover ?G \<noteq> {}}"
    define B2 where "B2 = B - B1"
    have cG: "block_cover ?G = {first_int..<?f}" by (simp add: block_cover_def)
    have sub: "block_cover b \<subseteq> {first_int..last_int}" if "b \<in> B" for b
      using that less.prems(5) by blast
    have inside: "block_cover b \<subseteq> block_cover ?G" if "b \<in> B1" for b
    proof -
      from that have bB: "b \<in> B" and ne: "block_cover b \<inter> block_cover ?G \<noteq> {}"
        by (simp_all add: B1_def)
      from less.prems(4) bB have "aligned b" by blast
      from block_inside_greedy[OF less.prems(1) True less.prems(2) this sub[OF bB] ne]
      show ?thesis .
    qed
    have "first_int \<in> \<Union>(block_cover ` B)" using True less.prems(5) by simp
    then obtain b0 where b0: "b0 \<in> B" "first_int \<in> block_cover b0" by blast
    have "first_int \<in> block_cover ?G" by (simp add: block_cover_def)
    with b0 have "b0 \<in> B1" by (auto simp: B1_def)
    then have ne1: "B1 \<noteq> {}" by blast
    have f1: "finite B1" and s1: "B1 \<subseteq> B" using less.prems(3) by (auto simp: B1_def)
    have f2: "finite B2" using less.prems(3) by (simp add: B2_def)
    have a2: "\<forall>b\<in>B2. aligned b" using less.prems(4) by (simp add: B2_def)
    have U2: "\<Union>(block_cover ` B2) = {?f..last_int}"
    proof (intro equalityI subsetI)
      fix x assume "x \<in> \<Union>(block_cover ` B2)"
      then obtain b where b: "b \<in> B2" "x \<in> block_cover b" by blast
      then have bB: "b \<in> B" and nb: "b \<notin> B1" by (simp_all add: B2_def)
      from sub[OF bB] b(2) have r: "first_int \<le> x" "x \<le> last_int" by auto
      from nb bB b(2) have "x \<notin> block_cover ?G" by (auto simp: B1_def)
      with r(1) have "?f \<le> x" unfolding cG by simp
      with r(2) show "x \<in> {?f..last_int}" by simp
    next
      fix x assume x: "x \<in> {?f..last_int}"
      have pw: "(0::int) < 2 ^ ?n" by simp
      from x pw have "x \<in> {first_int..last_int}" by (simp del: zero_less_power)
      with less.prems(5) obtain b where b: "b \<in> B" "x \<in> block_cover b" by blast
      have "b \<notin> B1"
      proof
        assume "b \<in> B1"
        from inside[OF this] b(2) have "x \<in> block_cover ?G" by blast
        with x show False unfolding cG by simp
      qed
      with b show "x \<in> \<Union>(block_cover ` B2)" by (auto simp: B2_def)
    qed
    have sm: "nat (last_int - ?f + 1) < nat (last_int - first_int + 1)"
      using True by simp
    have nn: "0 \<le> ?f" using less.prems(1) by simp
    from less.hyps[OF sm nn less.prems(2) f2 a2 U2]
    have ih: "length (fst (summarize_loop bits ?f last_int)) \<le> card B2" .
    have st: "length (fst (summarize_loop bits first_int last_int))
        = Suc (length (fst (summarize_loop bits ?f last_int)))"
      using summarize_loop_step[OF less.prems(1) True less.prems(2)]
      by (simp split: prod.splits)
    have c1: "1 \<le> card B1" using ne1 f1 by (simp add: Suc_le_eq card_gt_0_iff)
    have "card B2 = card B - card B1"
      unfolding B2_def using f1 s1 by (rule card_Diff_subset)
    moreover have "card B1 \<le> card B" using s1 less.prems(3) by (rule card_mono[rotated])
    ultimately have "Suc (card B2) \<le> card B" using c1 by simp
    with ih st show ?thesis by simp
  qed
qed

subsection \<open>The networks of one range\<close>

lemma block_net_props:
  assumes "bits = 32 \<or> bits = 128" "snd b \<le> bits"
  shows "max_prefixlen (block_net bits b) = bits"
    and "network_address (block_net bits b) = fst b"
    and "prefixlen (block_net bits b) = int bits - int (snd b)"
    and "num_addresses (block_net bits b) = 2 ^ snd b"
    and "addresses (block_net bits b) = block_cover b"
proof -
  show m: "max_prefixlen (block_net bits b) = bits"
    using assms(1) by (auto simp: block_net_def)
  show a: "network_address (block_net bits b) = fst b"
    by (simp add: block_net_def)
  show p: "prefixlen (block_net bits b) = int bits - int (snd b)"
    by (simp add: block_net_def)
  have "bits - nat (int bits - int (snd b)) = snd b" using assms(2) by simp
  then show n: "num_addresses (block_net bits b) = 2 ^ snd b"
    by (simp add: num_addresses_def m p)
  show "addresses (block_net bits b) = block_cover b"
    by (simp add: addresses_def block_cover_def a n)
qed

lemma summarize_loop_result:
  assumes "0 \<le> low" "high < 2 ^ bits" "bits = 32 \<or> bits = 128"
  shows "\<exists>nets. summarize_loop bits low high = (nets, None)
     \<and> \<Union>(addresses ` set nets) = {low..high}
     \<and> (\<forall>net\<in>set nets. max_prefixlen net = bits \<and> 0 \<le> prefixlen net
            \<and> prefixlen net \<le> int bits \<and> num_addresses net dvd network_address net)
     \<and> (\<forall>B. finite B \<and> (\<forall>b\<in>B. aligned b) \<and> \<Union>(block_cover ` B) = {low..high}
            \<longrightarrow> length nets \<le> card B)"
proof -
  from summarize_loop_blocks[OF assms(1,2)] obtain blocks where
    r: "summarize_loop bits low high = (map (block_net bits) blocks, None)"
    and al: "\<forall>b\<in>set blocks. aligned b \<and> snd b \<le> bits"
    and cv: "\<Union>(block_cover ` set blocks) = {low..high}" by blast
  let ?nets = "map (block_net bits) blocks"
  have u: "\<Union>(addresses ` set ?nets) = {low..high}"
  proof -
    have "addresses (block_net bits b) = block_cover b" if "b \<in> set blocks" for b
      using block_net_props(5)[OF assms(3)] al that by blast
    then have "\<Union>(addresses ` set ?nets) = \<Union>(block_cover ` set blocks)" by auto
    with cv show ?thesis by simp
  qed
  have pr: "\<forall>net\<in>set ?nets. max_prefixlen net = bits \<and> 0 \<le> prefixlen net
            \<and> prefixlen net \<le> int bits \<and> num_addresses net dvd network_address net"
  proof
    fix net assume "net \<in> set ?nets"
    then obtain b where b: "b \<in> set blocks" "net = block_net bits b" by auto
    from al b(1) have ab: "aligned b" and sb: "snd b \<le> bits" by auto
    note props = block_net_props[OF assms(3) sb]
    show "max_prefixlen net = bits \<and> 0 \<le> prefixlen net
            \<and> prefixlen net \<le> int bits \<and> num_addresses net dvd network_address net"
      unfolding b(2) props using sb ab by (simp add: aligned_def)
  qed
  have mn: "\<forall>B. finite B \<and> (\<forall>b\<in>B. aligned b) \<and> \<Union>(block_cover ` B) = {low..high}
            \<longrightarrow> length ?nets \<le> card B"
  proof (intro allI impI)
    fix B assume B: "finite B \<and> (\<forall>b\<in>B. aligned b) \<and> \<Union>(block_cover ` B) = {low..high}"
    from summarize_loop_minimal[OF assms(1,2), of B] B r
    show "length ?nets \<le> card B" by simp
  qed
  from r u pr mn show ?thesis by blast
qed

lemma networks_single_v4:
  assumes "0 \<le> low" "low \<le> high" "high < 2 ^ 32"
  shows "networks [(low, high)] =
     (case summarize_loop 32 low high of (nets, None) \<Rightarrow> Inr nets | (nets, Some e) \<Rightarrow> Inl e)"
proof -
  have "low \<le> 2 ^ 33" using assms by simp
  moreover have "check_int_address 32 low" "check_int_address 32 high"
    using assms by (simp_all add: check_int_address_def ALL_ONES_def)
  ultimately show ?thesis
    using assms(2)
    by (simp add: range_addresses_def new_IPv4Address_def summarize_address_range_def
        split: prod.splits option.splits)
qed

lemma networks_single_v6:
  assumes "2 ^ 33 < low" "low \<le> high" "high < 2 ^ 128"
  shows "networks [(low, high)] =
     (case summarize_loop 128 low high of (nets, None) \<Rightarrow> Inr nets | (nets, Some e) \<Rightarrow> Inl e)"
proof -
  have "\<not> low \<le> 2 ^ 33" using assms by simp
  moreover have "check_int_address 128 low" "check_int_address 128 high"
    using assms by (simp_all add: check_int_address_def ALL_ONES_def)
  ultimately show ?thesis
    using assms(2)
    by (simp add: range_addresses_def new_IPv6Address_def summarize_address_range_def
        split: prod.splits option.splits)
qed

text \<open>
  C2, as the claim states it, fails: not every range with \<open>low \<le> high\<close> is summarized.
  The range from \<open>2^32 - 1\<close> to \<open>2^32\<close> starts in IPv4 and ends beyond it; the IPv4 address
  constructor refuses the upper bound, and no prefix is emitted.
\<close>

theorem networks_straddling_counterexample:
  "(4294967295::int) \<le> 4294967296
   \<and> networks [(4294967295, 4294967296)] = Inl AddressValueError"
  by (simp add: ip_eval)

text \<open>
  C2, amended. For every range with \<open>0 \<le> low \<le> high\<close> that lies within one address
  family as the code assigns it (\<open>high < 2^32\<close>, or \<open>2^33 < low\<close> and \<open>high < 2^128\<close>), the
  summarizer emits networks of that family, each aligned to its power-of-two size, whose
  addresses together are exactly the interval from \<open>low\<close> to \<open>high\<close>, no gaps and nothing
  outside; and no finite set of aligned power-of-two blocks with that union has fewer
  members than the summarizer emits networks. (What happens for \<open>low\<close> from \<open>2^32\<close> to
  \<open>2^33\<close> is left out here; see C1.)
\<close>

theorem networks_minimal_cover:
  assumes "0 \<le> low" "low \<le> high" "high < 2 ^ 32 \<or> (2 ^ 33 < low \<and> high < 2 ^ 128)"
  shows "\<exists>nets. networks [(low, high)] = Inr nets
     \<and> \<Union>(addresses ` set nets) = {low..high}
     \<and> (\<forall>net\<in>set nets. max_prefixlen net = (if high < 2 ^ 32 then 32 else 128)
            \<and> 0 \<le> prefixlen net \<and> prefixlen net \<le> int (max_prefixlen net)
            \<and> num_addresses net dvd network_address net)
     \<and> (\<forall>B. finite B \<and> (\<forall>b\<in>B. aligned b) \<and> \<Union>(block_cover ` B) = {low..high}
            \<longrightarrow> length nets \<le> card B)"
proof (cases "high < 2 ^ 32")
  case True
  from summarize_loop_result[OF assms(1) True] obtain nets where
    r: "summarize_loop 32 low high = (nets, None)"
    and u: "\<Union>(addresses ` set nets) = {low..high}"
    and p: "\<forall>net\<in>set nets. max_prefixlen net = 32 \<and> 0 \<le> prefixlen net
            \<and> prefixlen net \<le> int 32 \<and> num_addresses net dvd network_address net"
    and m: "\<forall>B. finite B \<and> (\<forall>b\<in>B. aligned b) \<and> \<Union>(block_cover ` B) = {low..high}
            \<longrightarrow> length nets \<le> card B" by blast
  have n: "networks [(low, high)] = Inr nets"
    using networks_single_v4[OF assms(1,2) True] r by simp
  from p True have p': "\<forall>net\<in>set nets. max_prefixlen net = (if high < 2 ^ 32 then 32 else 128)
            \<and> 0 \<le> prefixlen net \<and> prefixlen net \<le> int (max_prefixlen net)
            \<and> num_addresses net dvd network_address net" by simp
  from n u p' m show ?thesis by blast
next
  case False
  with assms(3) have lo: "2 ^ 33 < low" and hi: "high < 2 ^ 128" by auto
  from lo have l0: "0 \<le> low" by simp
  from summarize_loop_result[OF l0 hi] obtain nets where
    r: "summarize_loop 128 low high = (nets, None)"
    and u: "\<Union>(addresses ` set nets) = {low..high}"
    and p: "\<forall>net\<in>set nets. max_prefixlen net = 128 \<and> 0 \<le> prefixlen net
            \<and> prefixlen net \<le> int 128 \<and> num_addresses net dvd network_address net"
    and m: "\<forall>B. finite B \<and> (\<forall>b\<in>B. aligned b) \<and> \<Union>(block_cover ` B) = {low..high}
            \<longrightarrow> length nets \<le> card B" by blast
  have n: "networks [(low, high)] = Inr nets"
    using networks_single_v6[OF lo assms(2) hi] r by simp
  from p False have p': "\<forall>net\<in>set nets. max_prefixlen net = (if high < 2 ^ 32 then 32 else 128)
            \<and> 0 \<le> prefixlen net \<and> prefixlen net \<le> int (max_prefixlen net)
            \<and> num_addresses net dvd network_address net" by simp
  from n u p' m show ?thesis by blast
qed

text \<open>
  The spec's example, the range from \<open>10.0.0.0\<close> to \<open>10.0.0.1\<close>: one network, printed
  \<open>10.0.0.0/31\<close>, covering exactly the two addresses; and an IPv6 range of four addresses.
\<close>

theorem networks_minimal_cover_witness:
  "networks [(167772160, 167772161)] = Inr [IPv4Network 167772160 31]
   \<and> map str_network [IPv4Network 167772160 31] = [ascii ''10.0.0.0/31'']
   \<and> addresses (IPv4Network 167772160 31) = {167772160..167772161}
   \<and> networks [(2 ^ 34, 2 ^ 34 + 3)] = Inr [IPv6Network (2 ^ 34) 126]
   \<and> addresses (IPv6Network (2 ^ 34) 126) = {2 ^ 34..2 ^ 34 + 3}"
proof -
  have e4: "networks [(167772160, 167772161)] = Inr [IPv4Network 167772160 31]"
    by (simp add: ip_eval)
  have s4: "map str_network [IPv4Network 167772160 31] = [ascii ''10.0.0.0/31'']"
    by (simp add: str_eval)
  have e6: "networks [(2 ^ 34, 2 ^ 34 + 3)] = Inr [IPv6Network (2 ^ 34) 126]"
    by (simp add: ip_eval)
  have h4: "(0::int) \<le> 167772160" "(167772160::int) \<le> 167772161"
    "(167772161::int) < 2 ^ 32 \<or> (2 ^ 33 < (167772160::int) \<and> (167772161::int) < 2 ^ 128)"
    by simp_all
  from networks_minimal_cover[OF h4] e4
  have a4: "addresses (IPv4Network 167772160 31) = {167772160..167772161}" by auto
  have h6: "(0::int) \<le> 2 ^ 34" "(2::int) ^ 34 \<le> 2 ^ 34 + 3"
    "(2::int) ^ 34 + 3 < 2 ^ 32 \<or> (2 ^ 33 < (2::int) ^ 34 \<and> (2::int) ^ 34 + 3 < 2 ^ 128)"
    by simp_all
  from networks_minimal_cover[OF h6] e6
  have a6: "addresses (IPv6Network (2 ^ 34) 126) = {2 ^ 34..2 ^ 34 + 3}" by auto
  from e4 s4 a4 e6 a6 show ?thesis by blast
qed

end
